theory Spec2Isabelle
  imports Main "HOL-Library.Multiset"
begin

text \<open>
  A verification development for the Go examples of this repository: the roman numeral
  server, the naive prime finder, and the cancellable channel pipelines (generator,
  multiply, repeatFn, take, primeFinder, fanIn) of the concurrency notes.
\<close>

section \<open>Go integers\<close>

text \<open>
  Go's \<open>int\<close> is a 64-bit two's complement integer on the machines the examples were
  run on. It is modelled as an \<open>int\<close> in the representable range, and every arithmetic
  result is wrapped around explicitly.
\<close>

definition minInt :: int where
  "minInt = - (2 ^ 63)"

definition maxInt :: int where
  "maxInt = 2 ^ 63 - 1"

definition is_int64 :: "int \<Rightarrow> bool" where
  "is_int64 x = (minInt \<le> x \<and> x \<le> maxInt)"

definition wrap64 :: "int \<Rightarrow> int" where
  "wrap64 x = (x + 2 ^ 63) mod 2 ^ 64 - 2 ^ 63"

text \<open>Go's \<open>%\<close> truncates towards zero: the remainder has the sign of the dividend.\<close>

definition go_rem :: "int \<Rightarrow> int \<Rightarrow> int" where
  "go_rem a b = sgn a * (\<bar>a\<bar> mod \<bar>b\<bar>)"

section \<open>The prime finder, per item\<close>

text \<open>
  The inner loop of \<open>primeFinder\<close>:
  \<^verbatim>\<open>
      prime := true
      for divisor := integer - 1; divisor > 1; divisor-- {
          if integer%divisor == 0 { prime = false; break }
      }
  \<close>
  \<open>primeLoop integer divisor\<close> is the value of \<open>prime\<close> after the loop, entered with
  the given value of \<open>divisor\<close>.
\<close>

function primeLoop :: "int \<Rightarrow> int \<Rightarrow> bool" where
  "primeLoop integer divisor =
     (if divisor > 1
      then (if go_rem integer divisor = 0 then False
            else primeLoop integer (wrap64 (divisor - 1)))
      else True)"
  by pat_completeness auto
termination
proof (relation "measure (\<lambda>(i, d). nat d)")
  show "wf (measure (\<lambda>(i, d). nat d))" by simp
next
  fix integer divisor :: int
  assume "1 < divisor"
  have "wrap64 (divisor - 1) < divisor"
  proof (cases "divisor - 1 < 2 ^ 63")
    case True
    with \<open>1 < divisor\<close> have "(divisor - 1 + 2 ^ 63) mod 2 ^ 64 = divisor - 1 + 2 ^ 63"
      by (intro mod_pos_pos_trivial) auto
    then show ?thesis by (simp add: wrap64_def)
  next
    case False
    have "(divisor - 1 + 2 ^ 63) mod 2 ^ 64 < (2 ^ 64 :: int)"
      by (rule pos_mod_bound) simp
    then have "wrap64 (divisor - 1) < 2 ^ 63" by (simp add: wrap64_def)
    with False show ?thesis by linarith
  qed
  with \<open>1 < divisor\<close>
  show "((integer, wrap64 (divisor - 1)), (integer, divisor)) \<in> measure (\<lambda>(i, d). nat d)"
    by simp
qed

declare primeLoop.simps [simp del]

text \<open>
  One iteration of the body of \<open>for integer := range intStream\<close> in \<open>primeFinder\<close>:
  the received value is decremented (\<open>integer -= 1\<close>), the decremented value is tested,
  and it is the decremented value that the stage offers on \<open>primeStream\<close>
  (\<open>None\<close>: nothing is offered for this input).
\<close>

definition primeFinder_item :: "int \<Rightarrow> int option" where
  "primeFinder_item n =
     (let integer = wrap64 (n - 1) in
      if primeLoop integer (wrap64 (integer - 1)) then Some integer else None)"


section \<open>The roman numeral server\<close>



















section \<open>Channels and goroutines\<close>

text \<open>
  The pipelines of the notes are goroutines that talk over unbuffered channels. A channel
  is named as in the source. A value on a channel is an \<open>int\<close>, or \<open>nil\<close>, the zero
  value of \<open>interface{}\<close>.
\<close>

type_synonym chan = string

datatype val = VNil | VInt int

text \<open>
  A goroutine is modelled by its control state: the function it runs, that function's
  parameters and locals, and the point where it is suspended. Each stage has one state per
  suspension point:
  \<^item> \<open>Generator done intStream integers\<close>: the \<open>select\<close> of \<open>generator\<close>, with the
    integers still to send;
  \<^item> \<open>RepeatFn done valueStream fn calls\<close>: the \<open>select\<close> of \<open>repeatFn\<close>; the results of
    the successive calls of \<open>fn\<close> are \<open>fn 0\<close>, \<open>fn 1\<close>, ...;
  \<^item> \<open>MultiplyRange\<close> and \<open>MultiplySelect\<close>: \<open>multiply\<close> waiting in
    \<open>for i := range intStream\<close>, and in its \<open>select\<close> with the product to send;
  \<^item> \<open>PrimeFinderRange\<close> and \<open>PrimeFinderSelect\<close>: the same for \<open>primeFinder\<close>;
  \<^item> \<open>TakeLoop\<close>: \<open>take\<close> at the head of \<open>for i := 0; i < num; i++\<close>; the
    \<open>select\<close> case \<open>takeStream <- <-valueStream\<close> first receives from \<open>valueStream\<close>
    (Go evaluates the operand of a send before it selects) and then, in \<open>TakeSelect\<close>,
    races the send against \<open>done\<close>;
  \<^item> \<open>MultiplexRange\<close>, \<open>MultiplexSelect\<close>, \<open>MultiplexDone\<close>: a \<open>multiplex\<close> goroutine
    of \<open>fanIn\<close>, the last state being its deferred \<open>wg.Done()\<close>;
  \<^item> \<open>FanInWait\<close>, \<open>FanInClose\<close>: the goroutine of \<open>fanIn\<close> that runs \<open>wg.Wait()\<close> and
    then \<open>close(multiplexedStream)\<close>;
  \<^item> \<open>MainRange\<close>, \<open>MainReturn\<close>, \<open>MainExited\<close>: \<open>main\<close> in
    \<open>for v := range pipeline { fmt.Println(v) }\<close> with the values printed so far, then at
    its deferred \<open>close(done)\<close>, then returned;
  \<^item> \<open>Closing c\<close>: a stage that has left its loop and runs its deferred \<open>close(c)\<close>;
    \<open>Exited\<close>: a goroutine that has returned;
  \<^item> \<open>IllTyped\<close>: a stage reading a \<open>chan int\<close> that was handed \<open>nil\<close>, which Go's
    typing excludes.
\<close>

datatype goroutine =
    Exited
  | Closing chan
  | Generator chan chan "int list"
  | RepeatFn chan chan "nat \<Rightarrow> val" nat
  | MultiplyRange chan chan chan int
  | MultiplySelect chan chan chan int int
  | PrimeFinderRange chan chan chan
  | PrimeFinderSelect chan chan chan int
  | TakeLoop chan chan chan int int
  | TakeSelect chan chan chan int int val
  | MultiplexRange chan chan chan
  | MultiplexSelect chan chan chan val
  | MultiplexDone
  | FanInWait chan
  | FanInClose chan
  | MainRange chan chan "val list"
  | MainReturn chan "val list"
  | MainExited "val list"
  | IllTyped

text \<open>
  What a suspended goroutine is ready to do, with the state it continues in: send a value,
  receive (the continuation gets \<open>Some v\<close> for a value and \<open>None\<close> when the channel is
  closed), close a channel, or call \<open>Done\<close> or \<open>Wait\<close> on the wait group of \<open>fanIn\<close>.
  A \<open>select\<close> offers each of its cases; \<open>case <-done\<close> is a receive on \<open>done\<close>.
\<close>

datatype offer =
    Send chan val goroutine
  | Recv chan "val option \<Rightarrow> goroutine"
  | Close chan goroutine
  | WgDone goroutine
  | WgWait goroutine

fun offers :: "goroutine \<Rightarrow> offer list" where
  "offers Exited = []"
| "offers (Closing out) = [Close out Exited]"
| "offers (Generator done intStream integers) =
     (case integers of
        [] \<Rightarrow> [Close intStream Exited]
      | i # rest \<Rightarrow>
          [Recv done (\<lambda>_. Closing intStream),
           Send intStream (VInt i) (Generator done intStream rest)])"
| "offers (RepeatFn done valueStream fn calls) =
     [Recv done (\<lambda>_. Closing valueStream),
      Send valueStream (fn calls) (RepeatFn done valueStream fn (Suc calls))]"
| "offers (MultiplyRange done intStream multipliedStream multiplier) =
     [Recv intStream (\<lambda>r. case r of
         None \<Rightarrow> Closing multipliedStream
       | Some (VInt i) \<Rightarrow>
           MultiplySelect done intStream multipliedStream multiplier (wrap64 (i * multiplier))
       | Some VNil \<Rightarrow> IllTyped)]"
| "offers (MultiplySelect done intStream multipliedStream multiplier product) =
     [Recv done (\<lambda>_. Closing multipliedStream),
      Send multipliedStream (VInt product)
        (MultiplyRange done intStream multipliedStream multiplier)]"
| "offers (PrimeFinderRange done intStream primeStream) =
     [Recv intStream (\<lambda>r. case r of
         None \<Rightarrow> Closing primeStream
       | Some (VInt n) \<Rightarrow>
           (case primeFinder_item n of
              None \<Rightarrow> PrimeFinderRange done intStream primeStream
            | Some integer \<Rightarrow> PrimeFinderSelect done intStream primeStream integer)
       | Some VNil \<Rightarrow> IllTyped)]"
| "offers (PrimeFinderSelect done intStream primeStream integer) =
     [Recv done (\<lambda>_. Closing primeStream),
      Send primeStream (VInt integer) (PrimeFinderRange done intStream primeStream)]"
| "offers (TakeLoop done valueStream takeStream num i) =
     (if i < num
      then [Recv valueStream (\<lambda>r. TakeSelect done valueStream takeStream num i
                                     (case r of None \<Rightarrow> VNil | Some v \<Rightarrow> v))]
      else [Close takeStream Exited])"
| "offers (TakeSelect done valueStream takeStream num i v) =
     [Recv done (\<lambda>_. Closing takeStream),
      Send takeStream v (TakeLoop done valueStream takeStream num (i + 1))]"
| "offers (MultiplexRange done c multiplexedStream) =
     [Recv c (\<lambda>r. case r of
         None \<Rightarrow> MultiplexDone
       | Some v \<Rightarrow> MultiplexSelect done c multiplexedStream v)]"
| "offers (MultiplexSelect done c multiplexedStream v) =
     [Recv done (\<lambda>_. MultiplexDone),
      Send multiplexedStream v (MultiplexRange done c multiplexedStream)]"
| "offers MultiplexDone = [WgDone Exited]"
| "offers (FanInWait multiplexedStream) = [WgWait (FanInClose multiplexedStream)]"
| "offers (FanInClose multiplexedStream) = [Close multiplexedStream Exited]"
| "offers (MainRange pipeline done printed) =
     [Recv pipeline (\<lambda>r. case r of
         None \<Rightarrow> MainReturn done printed
       | Some v \<Rightarrow> MainRange pipeline done (printed @ [v]))]"
| "offers (MainReturn done printed) = [Close done (MainExited printed)]"
| "offers (MainExited printed) = []"
| "offers IllTyped = []"

text \<open>
  The state of a program: its goroutines, the channels closed so far, the counter of the
  wait group, and whether the program has panicked.
\<close>

record sys =
  procs :: "goroutine list"
  closed :: "chan set"
  wg :: int
  panicked :: bool

text \<open>
  What a step does: \<open>Comm j i c v\<close> is goroutine \<open>j\<close> handing \<open>v\<close> to goroutine \<open>i\<close>
  over the unbuffered channel \<open>c\<close>; \<open>RecvClosed i c\<close> is \<open>i\<close> receiving from the closed
  channel \<open>c\<close>; \<open>Closes i c\<close> is \<open>i\<close> closing \<open>c\<close>; \<open>Panics i\<close> is a run-time panic
  raised in \<open>i\<close>.
\<close>

datatype event =
    Comm nat nat chan val
  | RecvClosed nat chan
  | Closes nat chan
  | Panics nat
  | WgDoneEv nat
  | WgWaitEv nat

fun send_offer :: "chan \<Rightarrow> offer \<Rightarrow> (val \<times> goroutine) list" where
  "send_offer c (Send c' v g') = (if c' = c then [(v, g')] else [])"
| "send_offer c _ = []"

text \<open>The goroutines other than \<open>i\<close> that are ready to send on \<open>c\<close>.\<close>

definition partners :: "sys \<Rightarrow> nat \<Rightarrow> chan \<Rightarrow> (nat \<times> val \<times> goroutine) list" where
  "partners s i c =
     concat (map (\<lambda>j. if j = i then []
                         else map (\<lambda>(v, g'). (j, v, g'))
                                (concat (map (send_offer c) (offers (procs s ! j)))))
               [0..<length (procs s)])"

text \<open>
  The steps goroutine \<open>i\<close> can take on one of its offers, by the rules of Go:
  \<^item> a receive on a closed channel returns at once (with the zero value); on an open
    unbuffered channel it needs a goroutine ready to send, and both move on together;
  \<^item> a send on an open channel happens with the receiver's step; on a closed channel it
    panics;
  \<^item> closing a closed channel panics;
  \<^item> \<open>wg.Done()\<close> decrements the counter (and panics below zero); \<open>wg.Wait()\<close> returns
    once the counter is zero.
\<close>

fun fire :: "sys \<Rightarrow> nat \<Rightarrow> offer \<Rightarrow> (event \<times> sys) list" where
  "fire s i (Recv c k) =
     (if c \<in> closed s
      then [(RecvClosed i c, s\<lparr>procs := (procs s)[i := k None]\<rparr>)]
      else map (\<lambda>(j, v, g'). (Comm j i c v, s\<lparr>procs := (procs s)[i := k (Some v), j := g']\<rparr>))
             (partners s i c))"
| "fire s i (Send c v g') =
     (if c \<in> closed s then [(Panics i, s\<lparr>panicked := True\<rparr>)] else [])"
| "fire s i (Close c g') =
     (if c \<in> closed s then [(Panics i, s\<lparr>panicked := True\<rparr>)]
      else [(Closes i c, s\<lparr>procs := (procs s)[i := g'], closed := insert c (closed s)\<rparr>)])"
| "fire s i (WgDone g') =
     (if wg s \<le> 0 then [(Panics i, s\<lparr>panicked := True\<rparr>)]
      else [(WgDoneEv i, s\<lparr>procs := (procs s)[i := g'], wg := wg s - 1\<rparr>)])"
| "fire s i (WgWait g') =
     (if wg s = 0 then [(WgWaitEv i, s\<lparr>procs := (procs s)[i := g']\<rparr>)] else [])"

text \<open>All the steps a program can take next; a program that has panicked takes none.\<close>

definition succs :: "sys \<Rightarrow> (event \<times> sys) list" where
  "succs s =
     (if panicked s then []
      else concat (map (\<lambda>i. concat (map (fire s i) (offers (procs s ! i))))
             [0..<length (procs s)]))"

definition step :: "sys \<Rightarrow> event \<Rightarrow> sys \<Rightarrow> bool" where
  "step s e s' = ((e, s') \<in> set (succs s))"

inductive run :: "sys \<Rightarrow> event list \<Rightarrow> sys \<Rightarrow> bool" where
  run_nil: "run s [] s"
| run_snoc: "run s es s' \<Longrightarrow> step s' e s'' \<Longrightarrow> run s (es @ [e]) s''"

section \<open>Pipelines\<close>

text \<open>
  A program whose goroutines have all been started and stand at the head of their loops,
  with no channel closed yet; \<open>stdout\<close> is what \<open>main\<close> has printed.
\<close>

definition st :: "goroutine list \<Rightarrow> chan set \<Rightarrow> sys" where
  "st ps C = \<lparr>procs = ps, closed = C, wg = 0, panicked = False\<rparr>"

fun printed :: "goroutine \<Rightarrow> val list" where
  "printed (MainRange pipeline done out) = out"
| "printed (MainReturn done out) = out"
| "printed (MainExited out) = out"
| "printed _ = []"

definition stdout :: "sys \<Rightarrow> val list" where
  "stdout s = concat (map printed (procs s))"

text \<open>
  The generator feeding one \<open>multiply\<close> stage, ranged over by \<open>main\<close>:
  \<^verbatim>\<open>
      done := make(chan interface{})
      defer close(done)
      intStream := generator(done, integers...)
      pipeline := multiply(done, intStream, multiplier)
      for v := range pipeline { fmt.Println(v) }
  \<close>
\<close>

definition multiply_pipeline :: "int list \<Rightarrow> int \<Rightarrow> sys" where
  "multiply_pipeline integers multiplier =
     st [Generator ''done'' ''intStream'' integers,
         MultiplyRange ''done'' ''intStream'' ''multipliedStream'' multiplier,
         MainRange ''multipliedStream'' ''done'' []] {}"

text \<open>The value \<open>multiply\<close> sends for the input \<open>i\<close>: \<open>i * multiplier\<close>.\<close>

definition product :: "int \<Rightarrow> int \<Rightarrow> val" where
  "product multiplier i = VInt (wrap64 (i * multiplier))"

text \<open>
  A bound on the steps this pipeline still has to take, and the states it passes through.
\<close>

fun weight1 :: "goroutine \<Rightarrow> nat" where
  "weight1 (Generator d c r) = 4 * length r + 2"
| "weight1 (MultiplyRange d i c m) = 2"
| "weight1 (MultiplySelect d i c m p) = 4"
| "weight1 (Closing c) = 1"
| "weight1 (MainRange p d out) = 2"
| "weight1 (MainReturn d out) = 1"
| "weight1 _ = 0"

definition fuel1 :: "sys \<Rightarrow> nat" where
  "fuel1 s = sum_list (map weight1 (procs s))"

definition inv1 :: "int list \<Rightarrow> int \<Rightarrow> sys \<Rightarrow> bool" where
  "inv1 xs m s \<longleftrightarrow>
     (\<exists>rest out.
        s = st [Generator ''done'' ''intStream'' rest,
                MultiplyRange ''done'' ''intStream'' ''multipliedStream'' m,
                MainRange ''multipliedStream'' ''done'' out] {} \<and>
        out @ map (product m) rest = map (product m) xs) \<or>
     (\<exists>rest i out.
        s = st [Generator ''done'' ''intStream'' rest,
                MultiplySelect ''done'' ''intStream'' ''multipliedStream'' m (wrap64 (i * m)),
                MainRange ''multipliedStream'' ''done'' out] {} \<and>
        out @ product m i # map (product m) rest = map (product m) xs) \<or>
     (\<exists>i out.
        s = st [Exited,
                MultiplySelect ''done'' ''intStream'' ''multipliedStream'' m (wrap64 (i * m)),
                MainRange ''multipliedStream'' ''done'' out] {''intStream''} \<and>
        out @ [product m i] = map (product m) xs) \<or>
     s = st [Exited, MultiplyRange ''done'' ''intStream'' ''multipliedStream'' m,
             MainRange ''multipliedStream'' ''done'' (map (product m) xs)] {''intStream''} \<or>
     s = st [Exited, Closing ''multipliedStream'',
             MainRange ''multipliedStream'' ''done'' (map (product m) xs)] {''intStream''} \<or>
     s = st [Exited, Exited, MainRange ''multipliedStream'' ''done'' (map (product m) xs)]
            {''intStream'', ''multipliedStream''} \<or>
     s = st [Exited, Exited, MainReturn ''done'' (map (product m) xs)]
            {''intStream'', ''multipliedStream''} \<or>
     s = st [Exited, Exited, MainExited (map (product m) xs)]
            {''done'', ''intStream'', ''multipliedStream''}"

text \<open>
  \<open>take\<close> reading a finite stream, ranged over by \<open>main\<close>:
  \<open>for v := range take(done, valueStream, num) { fmt.Println(v) }\<close>, where
  \<open>valueStream\<close> is owned by a generator that sends the given values and closes it.
\<close>

definition take_pipeline :: "int list \<Rightarrow> int \<Rightarrow> sys" where
  "take_pipeline values num =
     st [Generator ''done'' ''valueStream'' values,
         TakeLoop ''done'' ''valueStream'' ''takeStream'' num 0,
         MainRange ''takeStream'' ''done'' []] {}"


text \<open>
  Both pipelines at once: the stream is fed by \<open>generator\<close> with a finite list, or by
  \<open>repeatFn\<close> without end. \<open>source_at\<close> is the feeding goroutine after \<open>k\<close> values sent,
  \<open>item\<close> the \<open>n\<close>-th value \<open>take\<close> gets out of its receive (the zero value \<open>nil\<close> once a
  finite stream is used up and closed), \<open>sent\<close> how many values the feeding goroutine has
  sent when \<open>take\<close> has received \<open>n\<close> times, and \<open>taken\<close> the first \<open>n\<close> values \<open>take\<close>
  gets.
\<close>

datatype source = Finite "int list" | Endless "nat \<Rightarrow> val"

fun source_at :: "chan \<Rightarrow> chan \<Rightarrow> source \<Rightarrow> nat \<Rightarrow> goroutine" where
  "source_at done valueStream (Finite xs) k = Generator done valueStream (drop k xs)"
| "source_at done valueStream (Endless fn) k = RepeatFn done valueStream fn k"

fun item :: "source \<Rightarrow> nat \<Rightarrow> val" where
  "item (Finite xs) n = (if n < length xs then VInt (xs ! n) else VNil)"
| "item (Endless fn) n = fn n"

fun sent :: "source \<Rightarrow> nat \<Rightarrow> nat" where
  "sent (Finite xs) n = min n (length xs)"
| "sent (Endless fn) n = n"

fun exhausted :: "source \<Rightarrow> nat \<Rightarrow> bool" where
  "exhausted (Finite xs) k = (length xs \<le> k)"
| "exhausted (Endless fn) k = False"

definition taken :: "source \<Rightarrow> nat \<Rightarrow> val list" where
  "taken src n = map (item src) [0..<n]"

definition source_pipeline :: "source \<Rightarrow> int \<Rightarrow> sys" where
  "source_pipeline src num =
     st [source_at ''done'' ''valueStream'' src 0,
         TakeLoop ''done'' ''valueStream'' ''takeStream'' num 0,
         MainRange ''takeStream'' ''done'' []] {}"

text \<open>How often \<open>take\<close> has received when \<open>main\<close> has printed \<open>n\<close> values.\<close>

fun received :: "goroutine \<Rightarrow> nat \<Rightarrow> nat" where
  "received (TakeSelect d c t num i v) n = Suc n"
| "received _ n = n"

text \<open>A bound on the steps a goroutine of these pipelines can still take.\<close>

fun weight2 :: "goroutine \<Rightarrow> nat" where
  "weight2 (Generator d c r) = 2"
| "weight2 (RepeatFn d c fn k) = 2"
| "weight2 (TakeLoop d c t num i) = 3 * nat (num - i) + 1"
| "weight2 (TakeSelect d c t num i v) = 3 * nat (num - i) - 1"
| "weight2 (Closing c) = 1"
| "weight2 (MainRange p d out) = 2"
| "weight2 (MainReturn d out) = 1"
| "weight2 _ = 0"

definition fuel2 :: "sys \<Rightarrow> nat" where
  "fuel2 s = sum_list (map weight2 (procs s))"

text \<open>
  Where each of the three goroutines can be, given the channels closed so far and what
  \<open>main\<close> has printed, and what holds along a run.
\<close>

definition source_ok :: "source \<Rightarrow> chan set \<Rightarrow> nat \<Rightarrow> goroutine \<Rightarrow> bool" where
  "source_ok src C k g \<longleftrightarrow>
     (g = source_at ''done'' ''valueStream'' src k \<and> ''valueStream'' \<notin> C) \<or>
     (g = Closing ''valueStream'' \<and> ''valueStream'' \<notin> C \<and> ''done'' \<in> C) \<or>
     (g = Exited \<and> ''valueStream'' \<in> C \<and> (''done'' \<in> C \<or> exhausted src k))"

definition taker_ok :: "source \<Rightarrow> int \<Rightarrow> chan set \<Rightarrow> val list \<Rightarrow> goroutine \<Rightarrow> bool" where
  "taker_ok src num C out g \<longleftrightarrow>
     (g = TakeLoop ''done'' ''valueStream'' ''takeStream'' num (int (length out)) \<and>
        length out \<le> nat num \<and> ''takeStream'' \<notin> C \<and> ''done'' \<notin> C) \<or>
     (g = TakeSelect ''done'' ''valueStream'' ''takeStream'' num (int (length out))
            (item src (length out)) \<and>
        int (length out) < num \<and> ''takeStream'' \<notin> C \<and> ''done'' \<notin> C) \<or>
     (g = Exited \<and> ''takeStream'' \<in> C \<and> length out = nat num)"

definition reader_ok :: "chan set \<Rightarrow> goroutine \<Rightarrow> bool" where
  "reader_ok C g \<longleftrightarrow>
     (\<exists>out. g = MainRange ''takeStream'' ''done'' out \<and> ''done'' \<notin> C) \<or>
     (\<exists>out. g = MainReturn ''done'' out \<and> ''done'' \<notin> C \<and> ''takeStream'' \<in> C) \<or>
     (\<exists>out. g = MainExited out \<and> ''done'' \<in> C \<and> ''takeStream'' \<in> C)"

definition tinv :: "source \<Rightarrow> int \<Rightarrow> sys \<Rightarrow> bool" where
  "tinv src num s \<longleftrightarrow>
     \<not> panicked s \<and>
     (\<exists>g0 g1 g2. procs s = [g0, g1, g2] \<and>
        source_ok src (closed s) (sent src (received g1 (length (printed g2)))) g0 \<and>
        taker_ok src num (closed s) (printed g2) g1 \<and>
        reader_ok (closed s) g2 \<and>
        printed g2 = taken src (length (printed g2)))"

section \<open>What a stage observes while it is suspended\<close>









section \<open>fanIn\<close>

text \<open>
  \<open>fanIn(done, channels...)\<close> starts one \<open>multiplex\<close> goroutine per input channel and
  the goroutine that waits for them and closes \<open>multiplexedStream\<close>; before it starts
  them it sets the wait group's counter to \<open>len(channels)\<close>.
\<close>

definition fanIn :: "chan \<Rightarrow> chan list \<Rightarrow> chan \<Rightarrow> goroutine list" where
  "fanIn done channels multiplexedStream =
     map (\<lambda>c. MultiplexRange done c multiplexedStream) channels @
     [FanInWait multiplexedStream]"

text \<open>A \<open>multiplex\<close> goroutine that has not yet made its deferred call of \<open>wg.Done\<close>.\<close>

fun forwarding :: "goroutine \<Rightarrow> bool" where
  "forwarding (MultiplexRange d c out) = True"
| "forwarding (MultiplexSelect d c out v) = True"
| "forwarding MultiplexDone = True"
| "forwarding _ = False"

text \<open>
  A goroutine that is not one of \<open>fanIn\<close>'s own: it owns (sends on, and closes) a channel
  other than \<open>multiplexedStream\<close> and \<open>done\<close>, or it is a \<open>main\<close> whose deferred close is not
  of \<open>multiplexedStream\<close>, and it does not touch the wait group. The producers of the input
  channels and the reader of the merged stream are such goroutines.
\<close>

fun stranger :: "chan \<Rightarrow> chan \<Rightarrow> goroutine \<Rightarrow> bool" where
  "stranger d out (Closing c) = (c \<noteq> out)"
| "stranger d out (Generator d' c r) = (c \<noteq> out \<and> c \<noteq> d)"
| "stranger d out (RepeatFn d' c fn n) = (c \<noteq> out \<and> c \<noteq> d)"
| "stranger d out (MultiplyRange d' i c m) = (c \<noteq> out \<and> c \<noteq> d)"
| "stranger d out (MultiplySelect d' i c m p) = (c \<noteq> out \<and> c \<noteq> d)"
| "stranger d out (PrimeFinderRange d' i c) = (c \<noteq> out \<and> c \<noteq> d)"
| "stranger d out (PrimeFinderSelect d' i c p) = (c \<noteq> out \<and> c \<noteq> d)"
| "stranger d out (TakeLoop d' i c num k) = (c \<noteq> out \<and> c \<noteq> d)"
| "stranger d out (TakeSelect d' i c num k v) = (c \<noteq> out \<and> c \<noteq> d)"
| "stranger d out (MainRange p d' pr) = (d' \<noteq> out)"
| "stranger d out (MainReturn d' pr) = (d' \<noteq> out)"
| "stranger d out (MultiplexRange d' c out') = False"
| "stranger d out (MultiplexSelect d' c out' v) = False"
| "stranger d out MultiplexDone = False"
| "stranger d out (FanInWait out') = False"
| "stranger d out (FanInClose out') = False"
| "stranger d out _ = True"

text \<open>
  What holds of the goroutines of \<open>fanIn\<close> along a run: the \<open>k\<close>-th is the \<open>multiplex\<close> of the
  \<open>k\<close>-th channel, and has left its loop only with its input or \<open>done\<close> closed; the one after
  them is the closer; the counter of the wait group is the number of \<open>multiplex\<close> goroutines
  that have not called \<open>wg.Done\<close> yet.
\<close>

definition slot_ok :: "chan \<Rightarrow> chan \<Rightarrow> chan \<Rightarrow> chan set \<Rightarrow> goroutine \<Rightarrow> bool" where
  "slot_ok d c out C g \<longleftrightarrow>
     g = MultiplexRange d c out \<or> (\<exists>v. g = MultiplexSelect d c out v) \<or>
     ((g = MultiplexDone \<or> g = Exited) \<and> (c \<in> C \<or> d \<in> C))"

definition closer_ok :: "chan \<Rightarrow> chan set \<Rightarrow> int \<Rightarrow> goroutine \<Rightarrow> bool" where
  "closer_ok out C w g \<longleftrightarrow>
     (g = FanInWait out \<and> out \<notin> C) \<or> (g = FanInClose out \<and> out \<notin> C \<and> w = 0) \<or>
     (g = Exited \<and> out \<in> C \<and> w = 0)"

definition fanin_inv :: "chan \<Rightarrow> chan list \<Rightarrow> chan \<Rightarrow> sys \<Rightarrow> bool" where
  "fanin_inv d cs out s \<longleftrightarrow>
     length cs < length (procs s) \<and>
     (\<forall>k < length cs. slot_ok d (cs ! k) out (closed s) (procs s ! k)) \<and>
     closer_ok out (closed s) (wg s) (procs s ! length cs) \<and>
     (\<forall>k. length cs < k \<and> k < length (procs s) \<longrightarrow> stranger d out (procs s ! k)) \<and>
     wg s = int (length (filter forwarding (procs s)))"

text \<open>The steps of a run that close a given channel.\<close>

fun is_close :: "chan \<Rightarrow> event \<Rightarrow> bool" where
  "is_close c (Closes i c') = (c' = c)"
| "is_close c _ = False"

text \<open>A program state with a given counter of the wait group.\<close>

definition fanin_demo :: "goroutine list \<Rightarrow> chan set \<Rightarrow> int \<Rightarrow> sys" where
  "fanin_demo ps C w = \<lparr>procs = ps, closed = C, wg = w, panicked = False\<rparr>"


section \<open>Fan-out\<close>

text \<open>The one channel a goroutine ever sends on, if any.\<close>

fun sends_on :: "goroutine \<Rightarrow> chan option" where
  "sends_on (Generator d c r) = Some c"
| "sends_on (RepeatFn d c fn n) = Some c"
| "sends_on (MultiplyRange d i c m) = Some c"
| "sends_on (MultiplySelect d i c m p) = Some c"
| "sends_on (PrimeFinderRange d i c) = Some c"
| "sends_on (PrimeFinderSelect d i c p) = Some c"
| "sends_on (TakeLoop d i c num k) = Some c"
| "sends_on (TakeSelect d i c num k v) = Some c"
| "sends_on (MultiplexRange d i c) = Some c"
| "sends_on (MultiplexSelect d i c v) = Some c"
| "sends_on _ = None"

text \<open>
  The hand-overs on a channel in a run, in order: which goroutine received, and what.
\<close>

fun delivery :: "chan \<Rightarrow> event \<Rightarrow> (nat \<times> val) list" where
  "delivery c (Comm j i c' v) = (if c' = c then [(i, v)] else [])"
| "delivery c _ = []"

definition deliveries :: "chan \<Rightarrow> event list \<Rightarrow> (nat \<times> val) list" where
  "deliveries c es = concat (map (delivery c) es)"

text \<open>
  The worker pool of \<open>main\<close>: \<open>finders[i] = primeFinder(done, randIntStream)\<close> for each
  \<open>i\<close>, all reading the same stream and each with a stream of its own.
\<close>

definition fanout :: "chan \<Rightarrow> chan \<Rightarrow> chan list \<Rightarrow> goroutine list" where
  "fanout done intStream finders = map (\<lambda>primeStream. PrimeFinderRange done intStream primeStream) finders"

text \<open>
  What holds along a run of a program whose first goroutine is the generator of the
  shared stream: after \<open>k\<close> hand-overs the generator still has to send what is left of its
  seed from position \<open>k\<close> on, and no other goroutine sends on the shared stream.
\<close>

definition fanout_inv :: "chan \<Rightarrow> chan \<Rightarrow> int list \<Rightarrow> sys \<Rightarrow> nat \<Rightarrow> bool" where
  "fanout_inv d c xs s k \<longleftrightarrow>
     0 < length (procs s) \<and> k \<le> length xs \<and>
     (procs s ! 0 = Generator d c (drop k xs) \<or> procs s ! 0 = Closing c \<or> procs s ! 0 = Exited) \<and>
     (\<forall>i. 0 < i \<and> i < length (procs s) \<longrightarrow> sends_on (procs s ! i) \<noteq> Some c)"

text \<open>A generator of 2 and 3 read by two prime finders.\<close>

definition fanout_demo :: sys where
  "fanout_demo =
     st (Generator ''done'' ''intStream'' [2, 3] #
         fanout ''done'' ''intStream'' [''primeStream1'', ''primeStream2'']) {}"




section \<open>Prime finders between a generator and fanIn\<close>

text \<open>
  The scenario of the specification, built the way \<open>main\<close> builds its pipeline, with
  \<open>generator\<close> in the place of the random stream and three finders:
  \<^verbatim>\<open>
      done := make(chan interface{})
      defer close(done)
      intStream := generator(done, integers...)
      finders := make([]<-chan interface{}, 3)
      for i := 0; i < 3; i++ { finders[i] = primeFinder(done, intStream) }
      for prime := range take(done, fanIn(done, finders...), num) { fmt.Printf(..., prime) }
  \<close>
  The goroutines of \<open>fanIn\<close> come first, then the generator, the finders, \<open>take\<close> and
  \<open>main\<close>.
\<close>














section \<open>Facts about the integers and the prime finder\<close>

lemma wrap64_id: "is_int64 x \<Longrightarrow> wrap64 x = x"
proof -
  assume "is_int64 x"
  then have "0 \<le> x + 2 ^ 63" and "x + 2 ^ 63 < 2 ^ 64"
    by (simp_all add: is_int64_def minInt_def maxInt_def)
  then have "(x + 2 ^ 63) mod 2 ^ 64 = x + 2 ^ 63"
    by (rule mod_pos_pos_trivial)
  then show ?thesis by (simp add: wrap64_def)
qed

lemma go_rem_zero_iff: "0 < b \<Longrightarrow> go_rem a b = 0 \<longleftrightarrow> b dvd a"
proof -
  assume "0 < b"
  then have "go_rem a b = 0 \<longleftrightarrow> \<bar>a\<bar> mod b = 0"
    by (auto simp: go_rem_def sgn_if)
  also have "\<dots> \<longleftrightarrow> b dvd \<bar>a\<bar>" by (simp add: dvd_eq_mod_eq_0)
  also have "\<dots> \<longleftrightarrow> b dvd a" by simp
  finally show ?thesis .
qed

lemma primeLoop_stop: "\<not> 1 < divisor \<Longrightarrow> primeLoop integer divisor"
  by (subst primeLoop.simps) simp

lemma primeLoop_hit: "1 < divisor \<Longrightarrow> divisor dvd integer \<Longrightarrow> \<not> primeLoop integer divisor"
  by (subst primeLoop.simps) (simp add: go_rem_zero_iff)

lemma primeLoop_next:
  "1 < divisor \<Longrightarrow> divisor \<le> maxInt \<Longrightarrow> \<not> divisor dvd integer \<Longrightarrow>
   primeLoop integer divisor = primeLoop integer (divisor - 1)"
proof -
  assume a: "1 < divisor" "divisor \<le> maxInt" "\<not> divisor dvd integer"
  then have "is_int64 (divisor - 1)" by (simp add: is_int64_def minInt_def maxInt_def)
  then have "wrap64 (divisor - 1) = divisor - 1" by (rule wrap64_id)
  with a show ?thesis by (subst primeLoop.simps) (simp add: go_rem_zero_iff)
qed

text \<open>The loop answers whether no number from 2 up to the first divisor tried divides.\<close>

lemma primeLoop_char:
  "divisor \<le> maxInt \<Longrightarrow>
   primeLoop integer divisor = (\<forall>d. 1 < d \<and> d \<le> divisor \<longrightarrow> \<not> d dvd integer)"
proof (induction integer divisor rule: primeLoop.induct)
  case (1 integer divisor)
  show ?case
  proof (cases "1 < divisor")
    case False
    then have "primeLoop integer divisor" by (rule primeLoop_stop)
    moreover from False have "\<forall>d. 1 < d \<and> d \<le> divisor \<longrightarrow> \<not> d dvd integer" by auto
    ultimately show ?thesis by simp
  next
    case True
    show ?thesis
    proof (cases "divisor dvd integer")
      case dv: True
      with True have "\<not> primeLoop integer divisor" by (rule primeLoop_hit)
      moreover from True dv have "\<not> (\<forall>d. 1 < d \<and> d \<le> divisor \<longrightarrow> \<not> d dvd integer)"
        by auto
      ultimately show ?thesis by simp
    next
      case ndv: False
      from True "1.prems" have "is_int64 (divisor - 1)"
        by (simp add: is_int64_def minInt_def maxInt_def)
      then have w: "wrap64 (divisor - 1) = divisor - 1" by (rule wrap64_id)
      from True ndv have nz: "go_rem integer divisor \<noteq> 0" by (simp add: go_rem_zero_iff)
      from "1.prems" have le: "divisor - 1 \<le> maxInt" by simp
      have "primeLoop integer divisor = primeLoop integer (divisor - 1)"
        using True "1.prems" ndv by (rule primeLoop_next)
      also have "\<dots> = (\<forall>d. 1 < d \<and> d \<le> divisor - 1 \<longrightarrow> \<not> d dvd integer)"
        using "1.IH" [OF True nz] le unfolding w by simp
      also have "\<dots> = (\<forall>d. 1 < d \<and> d \<le> divisor \<longrightarrow> \<not> d dvd integer)"
      proof
        assume h: "\<forall>d. 1 < d \<and> d \<le> divisor - 1 \<longrightarrow> \<not> d dvd integer"
        show "\<forall>d. 1 < d \<and> d \<le> divisor \<longrightarrow> \<not> d dvd integer"
        proof (intro allI impI)
          fix d assume d: "1 < d \<and> d \<le> divisor"
          show "\<not> d dvd integer"
          proof (cases "d = divisor")
            case True with ndv show ?thesis by simp
          next
            case False
            with d have "1 < d \<and> d \<le> divisor - 1" by simp
            with h show ?thesis by blast
          qed
        qed
      next
        assume h: "\<forall>d. 1 < d \<and> d \<le> divisor \<longrightarrow> \<not> d dvd integer"
        show "\<forall>d. 1 < d \<and> d \<le> divisor - 1 \<longrightarrow> \<not> d dvd integer"
        proof (intro allI impI)
          fix d assume "1 < d \<and> d \<le> divisor - 1"
          then have "1 < d \<and> d \<le> divisor" by simp
          with h show "\<not> d dvd integer" by blast
        qed
      qed
      finally show ?thesis .
    qed
  qed
qed

lemma pred_not_dvd: "1 < (m::int) \<Longrightarrow> \<not> m dvd (m + 1)"
proof
  assume m: "1 < m" and "m dvd (m + 1)"
  then have "m dvd (m + 1 - m)" by (intro dvd_diff) simp_all
  then have "m dvd 1" by simp
  with m show False by simp
qed

lemma primeFinder_item_char:
  assumes "minInt + 2 \<le> n" "n \<le> maxInt"
  shows "primeFinder_item n =
    (if (\<forall>d. 1 < d \<and> d \<le> n - 2 \<longrightarrow> \<not> d dvd (n - 1)) then Some (n - 1) else None)"
proof -
  from assms have "is_int64 (n - 1)" "is_int64 (n - 2)"
    by (simp_all add: is_int64_def minInt_def maxInt_def)
  then have w: "wrap64 (n - 1) = n - 1" "wrap64 (n - 2) = n - 2"
    by (simp_all add: wrap64_id)
  from assms have "n - 2 \<le> maxInt" by simp
  then show ?thesis
    by (simp add: primeFinder_item_def Let_def w primeLoop_char)
qed


lemma primeFinder_item_min: "primeFinder_item (minInt + 1) = None"
proof -
  have w: "wrap64 minInt = minInt" "wrap64 (minInt - 1) = maxInt"
    by (simp_all add: wrap64_def minInt_def maxInt_def)
  have "(2 ^ 62 :: int) dvd minInt" by (simp add: minInt_def)
  moreover have "(1::int) < 2 ^ 62 \<and> (2 ^ 62 :: int) \<le> maxInt" by (simp add: maxInt_def)
  ultimately have "\<not> (\<forall>d. 1 < d \<and> d \<le> maxInt \<longrightarrow> \<not> d dvd minInt)" by blast
  then have "\<not> primeLoop minInt maxInt" by (simp add: primeLoop_char)
  then show ?thesis by (simp add: primeFinder_item_def Let_def w)
qed



lemmas primeFinder_eval = primeFinder_item_def Let_def wrap64_def primeLoop.simps go_rem_def

section \<open>Facts about the roman numeral server\<close>





section \<open>Facts about steps and runs\<close>

lemma in_send_offer: "(v, g') \<in> set (send_offer c ofr) \<longleftrightarrow> ofr = Send c v g'"
  by (cases ofr) auto

lemma in_partners:
  "(j, v, g') \<in> set (partners s i c) \<longleftrightarrow>
     j < length (procs s) \<and> j \<noteq> i \<and> Send c v g' \<in> set (offers (procs s ! j))"
proof
  assume "(j, v, g') \<in> set (partners s i c)"
  then show "j < length (procs s) \<and> j \<noteq> i \<and> Send c v g' \<in> set (offers (procs s ! j))"
    by (auto simp: partners_def in_send_offer split: if_splits)
next
  assume a: "j < length (procs s) \<and> j \<noteq> i \<and> Send c v g' \<in> set (offers (procs s ! j))"
  then have "(v, g') \<in> set (concat (map (send_offer c) (offers (procs s ! j))))"
    by (auto simp: in_send_offer)
  then have "(j, v, g') \<in> set (map (\<lambda>(v, g'). (j, v, g'))
      (concat (map (send_offer c) (offers (procs s ! j)))))"
    by (force simp: image_iff)
  moreover have "x \<in> set (concat (map f ys)) \<longleftrightarrow> (\<exists>y \<in> set ys. x \<in> set (f y))"
    for x :: "nat \<times> val \<times> goroutine" and f and ys :: "nat list"
    by auto
  ultimately show "(j, v, g') \<in> set (partners s i c)"
    using a unfolding partners_def by (simp only: ) (rule bexI [of _ j], auto)
qed

lemma in_fire_Recv:
  "(e, s') \<in> set (fire s i (Recv c k)) \<longleftrightarrow>
     (c \<in> closed s \<and> e = RecvClosed i c \<and> s' = s\<lparr>procs := (procs s)[i := k None]\<rparr>) \<or>
     (c \<notin> closed s \<and> (\<exists>j v g'. j < length (procs s) \<and> j \<noteq> i \<and>
         Send c v g' \<in> set (offers (procs s ! j)) \<and> e = Comm j i c v \<and>
         s' = s\<lparr>procs := (procs s)[i := k (Some v), j := g']\<rparr>))"
proof (cases "c \<in> closed s")
  case True
  then show ?thesis by auto
next
  case False
  have "(e, s') \<in> set (fire s i (Recv c k)) \<longleftrightarrow>
      (\<exists>j v g'. (j, v, g') \<in> set (partners s i c) \<and> e = Comm j i c v \<and>
         s' = s\<lparr>procs := (procs s)[i := k (Some v), j := g']\<rparr>)"
    using False by (force simp: image_iff)
  with False show ?thesis by (simp add: in_partners)
qed

lemma in_succs:
  "(e, s') \<in> set (succs s) \<longleftrightarrow>
     \<not> panicked s \<and> (\<exists>i ofr. i < length (procs s) \<and> ofr \<in> set (offers (procs s ! i)) \<and>
        (e, s') \<in> set (fire s i ofr))"
  by (auto simp: succs_def)

text \<open>The six kinds of step.\<close>

lemma stepE [consumes 1, case_names recv_closed comm closes panics wg_done wg_wait]:
  assumes "step s e s'"
  obtains
    (recv_closed) i c k where
      "\<not> panicked s" "i < length (procs s)" "Recv c k \<in> set (offers (procs s ! i))"
      "c \<in> closed s" "e = RecvClosed i c" "s' = s\<lparr>procs := (procs s)[i := k None]\<rparr>"
  | (comm) i j c k v g' where
      "\<not> panicked s" "i < length (procs s)" "j < length (procs s)" "j \<noteq> i"
      "Recv c k \<in> set (offers (procs s ! i))" "Send c v g' \<in> set (offers (procs s ! j))"
      "c \<notin> closed s" "e = Comm j i c v"
      "s' = s\<lparr>procs := (procs s)[i := k (Some v), j := g']\<rparr>"
  | (closes) i c g' where
      "\<not> panicked s" "i < length (procs s)" "Close c g' \<in> set (offers (procs s ! i))"
      "c \<notin> closed s" "e = Closes i c"
      "s' = s\<lparr>procs := (procs s)[i := g'], closed := insert c (closed s)\<rparr>"
  | (panics) i where
      "\<not> panicked s" "i < length (procs s)" "e = Panics i" "s' = s\<lparr>panicked := True\<rparr>"
      "(\<exists>c v g'. Send c v g' \<in> set (offers (procs s ! i)) \<and> c \<in> closed s) \<or>
       (\<exists>c g'. Close c g' \<in> set (offers (procs s ! i)) \<and> c \<in> closed s) \<or>
       (\<exists>g'. WgDone g' \<in> set (offers (procs s ! i)) \<and> wg s \<le> 0)"
  | (wg_done) i g' where
      "\<not> panicked s" "i < length (procs s)" "WgDone g' \<in> set (offers (procs s ! i))"
      "0 < wg s" "e = WgDoneEv i"
      "s' = s\<lparr>procs := (procs s)[i := g'], wg := wg s - 1\<rparr>"
  | (wg_wait) i g' where
      "\<not> panicked s" "i < length (procs s)" "WgWait g' \<in> set (offers (procs s ! i))"
      "wg s = 0" "e = WgWaitEv i" "s' = s\<lparr>procs := (procs s)[i := g']\<rparr>"
proof -
  from assms obtain i ofr where np: "\<not> panicked s" and i: "i < length (procs s)"
    and ofr: "ofr \<in> set (offers (procs s ! i))" and f: "(e, s') \<in> set (fire s i ofr)"
    unfolding step_def in_succs by blast
  show thesis
  proof (cases ofr)
    case (Send c v g')
    with f have "c \<in> closed s" "e = Panics i" "s' = s\<lparr>panicked := True\<rparr>"
      by (auto split: if_splits)
    with Send ofr i np show ?thesis by (intro panics [of i]) auto
  next
    case (Recv c k)
    with f have "(c \<in> closed s \<and> e = RecvClosed i c \<and> s' = s\<lparr>procs := (procs s)[i := k None]\<rparr>) \<or>
     (c \<notin> closed s \<and> (\<exists>j v g'. j < length (procs s) \<and> j \<noteq> i \<and>
         Send c v g' \<in> set (offers (procs s ! j)) \<and> e = Comm j i c v \<and>
         s' = s\<lparr>procs := (procs s)[i := k (Some v), j := g']\<rparr>))"
      by (simp only: in_fire_Recv)
    then show ?thesis
    proof (elim disjE conjE exE)
      assume "c \<in> closed s" "e = RecvClosed i c" "s' = s\<lparr>procs := (procs s)[i := k None]\<rparr>"
      with np i ofr Recv show thesis by (intro recv_closed [of i c k]) auto
    next
      fix j v g'
      assume "c \<notin> closed s" "j < length (procs s)" "j \<noteq> i"
         "Send c v g' \<in> set (offers (procs s ! j))" "e = Comm j i c v"
         "s' = s\<lparr>procs := (procs s)[i := k (Some v), j := g']\<rparr>"
      with np i ofr Recv show thesis by (intro comm [of i j c k v g']) auto
    qed
  next
    case (Close c g')
    show ?thesis
    proof (cases "c \<in> closed s")
      case True
      with f Close have "e = Panics i" "s' = s\<lparr>panicked := True\<rparr>" by auto
      with True Close ofr i np show ?thesis by (intro panics [of i]) auto
    next
      case False
      with f Close have "e = Closes i c"
        "s' = s\<lparr>procs := (procs s)[i := g'], closed := insert c (closed s)\<rparr>" by auto
      with False Close ofr i np show ?thesis by (intro closes [of i c g']) auto
    qed
  next
    case (WgDone g')
    show ?thesis
    proof (cases "wg s \<le> 0")
      case True
      with f WgDone have "e = Panics i" "s' = s\<lparr>panicked := True\<rparr>" by auto
      with True WgDone ofr i np show ?thesis by (intro panics [of i]) auto
    next
      case False
      with f WgDone have "e = WgDoneEv i"
        "s' = s\<lparr>procs := (procs s)[i := g'], wg := wg s - 1\<rparr>" by auto
      with False WgDone ofr i np show ?thesis by (intro wg_done [of i g']) auto
    qed
  next
    case (WgWait g')
    with f have "wg s = 0" "e = WgWaitEv i" "s' = s\<lparr>procs := (procs s)[i := g']\<rparr>"
      by (auto split: if_splits)
    with WgWait ofr i np show ?thesis by (intro wg_wait [of i g']) auto
  qed
qed

lemma step_commI:
  assumes "\<not> panicked s" "i < length (procs s)" "j < length (procs s)" "j \<noteq> i"
   "Recv c k \<in> set (offers (procs s ! i))" "Send c v g' \<in> set (offers (procs s ! j))"
   "c \<notin> closed s"
  shows "step s (Comm j i c v) (s\<lparr>procs := (procs s)[i := k (Some v), j := g']\<rparr>)"
proof -
  from assms have "(Comm j i c v, s\<lparr>procs := (procs s)[i := k (Some v), j := g']\<rparr>)
      \<in> set (fire s i (Recv c k))"
    unfolding in_fire_Recv by blast
  with assms show ?thesis unfolding step_def in_succs by blast
qed

lemma step_recv_closedI:
  assumes "\<not> panicked s" "i < length (procs s)" "Recv c k \<in> set (offers (procs s ! i))"
   "c \<in> closed s"
  shows "step s (RecvClosed i c) (s\<lparr>procs := (procs s)[i := k None]\<rparr>)"
proof -
  from assms have "(RecvClosed i c, s\<lparr>procs := (procs s)[i := k None]\<rparr>)
      \<in> set (fire s i (Recv c k))"
    unfolding in_fire_Recv by blast
  with assms show ?thesis unfolding step_def in_succs by blast
qed

lemma step_closesI:
  assumes "\<not> panicked s" "i < length (procs s)" "Close c g' \<in> set (offers (procs s ! i))"
   "c \<notin> closed s"
  shows "step s (Closes i c) (s\<lparr>procs := (procs s)[i := g'], closed := insert c (closed s)\<rparr>)"
proof -
  from assms have "(Closes i c, s\<lparr>procs := (procs s)[i := g'], closed := insert c (closed s)\<rparr>)
      \<in> set (fire s i (Close c g'))"
    by simp
  with assms show ?thesis unfolding step_def in_succs by blast
qed

lemma step_close_panicI:
  assumes "\<not> panicked s" "i < length (procs s)" "Close c g' \<in> set (offers (procs s ! i))"
   "c \<in> closed s"
  shows "step s (Panics i) (s\<lparr>panicked := True\<rparr>)"
proof -
  from assms have "(Panics i, s\<lparr>panicked := True\<rparr>) \<in> set (fire s i (Close c g'))"
    by simp
  with assms show ?thesis unfolding step_def in_succs by blast
qed


lemma step_wg_waitI:
  assumes "\<not> panicked s" "i < length (procs s)" "WgWait g' \<in> set (offers (procs s ! i))"
   "wg s = 0"
  shows "step s (WgWaitEv i) (s\<lparr>procs := (procs s)[i := g']\<rparr>)"
proof -
  from assms have "(WgWaitEv i, s\<lparr>procs := (procs s)[i := g']\<rparr>)
      \<in> set (fire s i (WgWait g'))"
    by simp
  with assms show ?thesis unfolding step_def in_succs by blast
qed

lemma step_closed_mono: "step s e s' \<Longrightarrow> closed s \<subseteq> closed s'"
  by (erule stepE) auto

lemma run_closed_mono: "run s es s' \<Longrightarrow> closed s \<subseteq> closed s'"
  by (induction rule: run.induct) (auto dest: step_closed_mono)

lemma run_cons: "step s e s' \<Longrightarrow> run s' es s'' \<Longrightarrow> run s (e # es) s''"
proof (induction es arbitrary: s'' rule: rev_induct)
  case Nil
  then have "s'' = s'" by (auto elim: run.cases)
  moreover have "run s ([] @ [e]) s'" using run_nil Nil(1) by (rule run_snoc)
  ultimately show ?case by simp
next
  case (snoc x xs)
  from snoc.prems(2) obtain t where "run s' xs t" "step t x s''"
    by (auto elim: run.cases)
  with snoc.IH [OF snoc.prems(1)] have "run s ((e # xs) @ [x]) s''"
    by (intro run_snoc) auto
  then show ?case by simp
qed

text \<open>
  A program whose steps all decrease a measure has a run to a state where nothing can
  move any more.
\<close>

lemma maximal_run:
  assumes dec: "\<And>s e s'. I s \<Longrightarrow> step s e s' \<Longrightarrow> I s' \<and> f s' < (f s :: nat)"
    and "I s0"
  shows "\<exists>es s. run s0 es s \<and> succs s = []"
  using assms(2)
proof (induction "f s0" arbitrary: s0 rule: less_induct)
  case less
  show ?case
  proof (cases "succs s0")
    case Nil
    then show ?thesis using run_nil by blast
  next
    case (Cons p ps)
    obtain e s1 where p: "p = (e, s1)" by (cases p)
    with Cons have st: "step s0 e s1" by (simp add: step_def)
    from dec [OF less.prems st] have "I s1" "f s1 < f s0" by simp_all
    from less.hyps [OF this(2) this(1)] obtain es s where "run s1 es s" "succs s = []"
      by blast
    with st have "run s0 (e # es) s" by (intro run_cons)
    with \<open>succs s = []\<close> show ?thesis by blast
  qed
qed

lemma upt3: "[0..<3] = [0, Suc 0, Suc (Suc 0)]"
  by (simp add: upt_rec)

lemmas sym_exec = step_def succs_def partners_def st_def upt3 numeral_2_eq_2 numeral_3_eq_3

section \<open>The generator feeding one multiply stage\<close>

lemma fuel1_st: "fuel1 (st ps C) = sum_list (map weight1 ps)"
  by (simp add: fuel1_def st_def)

lemma inv1_A:
  "out @ map (product m) rest = map (product m) xs \<Longrightarrow>
   inv1 xs m (st [Generator ''done'' ''intStream'' rest,
                  MultiplyRange ''done'' ''intStream'' ''multipliedStream'' m,
                  MainRange ''multipliedStream'' ''done'' out] {})"
  unfolding inv1_def by blast

lemma inv1_B:
  "out @ product m i # map (product m) rest = map (product m) xs \<Longrightarrow>
   inv1 xs m (st [Generator ''done'' ''intStream'' rest,
                  MultiplySelect ''done'' ''intStream'' ''multipliedStream'' m (wrap64 (i * m)),
                  MainRange ''multipliedStream'' ''done'' out] {})"
  unfolding inv1_def by blast

lemma inv1_C:
  "out @ [product m i] = map (product m) xs \<Longrightarrow>
   inv1 xs m (st [Exited,
                  MultiplySelect ''done'' ''intStream'' ''multipliedStream'' m (wrap64 (i * m)),
                  MainRange ''multipliedStream'' ''done'' out] {''intStream''})"
  unfolding inv1_def by blast

lemma inv1_D:
  "inv1 xs m (st [Exited, MultiplyRange ''done'' ''intStream'' ''multipliedStream'' m,
                  MainRange ''multipliedStream'' ''done'' (map (product m) xs)] {''intStream''})"
  "inv1 xs m (st [Exited, Closing ''multipliedStream'',
                  MainRange ''multipliedStream'' ''done'' (map (product m) xs)] {''intStream''})"
  "inv1 xs m (st [Exited, Exited, MainRange ''multipliedStream'' ''done'' (map (product m) xs)]
                 {''intStream'', ''multipliedStream''})"
  "inv1 xs m (st [Exited, Exited, MainReturn ''done'' (map (product m) xs)]
                 {''intStream'', ''multipliedStream''})"
  "inv1 xs m (st [Exited, Exited, MainExited (map (product m) xs)]
                 {''done'', ''intStream'', ''multipliedStream''})"
  unfolding inv1_def by blast+

lemma inv1_init: "inv1 xs m (multiply_pipeline xs m)"
  unfolding multiply_pipeline_def by (rule inv1_A) simp

text \<open>Every step leads to one of the listed states again, and uses up fuel.\<close>

lemma inv1_step:
  assumes "inv1 xs m s" and "step s e s'"
  shows "inv1 xs m s' \<and> fuel1 s' < fuel1 s"
  using assms(1) [unfolded inv1_def]
proof (elim disjE exE conjE)
  fix rest out
  assume s: "s = st [Generator ''done'' ''intStream'' rest,
      MultiplyRange ''done'' ''intStream'' ''multipliedStream'' m,
      MainRange ''multipliedStream'' ''done'' out] {}"
    and d: "out @ map (product m) rest = map (product m) xs"
  show "?thesis"
  proof (cases rest)
    case Nil
    with s assms(2) have "s' = st [Exited,
        MultiplyRange ''done'' ''intStream'' ''multipliedStream'' m,
        MainRange ''multipliedStream'' ''done'' out] {''intStream''}"
      by (simp add: sym_exec)
    with s d Nil show ?thesis by (simp add: inv1_D fuel1_st)
  next
    case (Cons x r)
    with s assms(2) have "s' = st [Generator ''done'' ''intStream'' r,
        MultiplySelect ''done'' ''intStream'' ''multipliedStream'' m (wrap64 (x * m)),
        MainRange ''multipliedStream'' ''done'' out] {}"
      by (simp add: sym_exec)
    with s d Cons show ?thesis
      by (simp add: inv1_B fuel1_st)
  qed
next
  fix rest i out
  assume s: "s = st [Generator ''done'' ''intStream'' rest,
      MultiplySelect ''done'' ''intStream'' ''multipliedStream'' m (wrap64 (i * m)),
      MainRange ''multipliedStream'' ''done'' out] {}"
    and d: "out @ product m i # map (product m) rest = map (product m) xs"
  show ?thesis
  proof (cases rest)
    case Nil
    with s assms(2) have "s' = st [Exited,
          MultiplySelect ''done'' ''intStream'' ''multipliedStream'' m (wrap64 (i * m)),
          MainRange ''multipliedStream'' ''done'' out] {''intStream''}
      \<or> s' = st [Generator ''done'' ''intStream'' [],
          MultiplyRange ''done'' ''intStream'' ''multipliedStream'' m,
          MainRange ''multipliedStream'' ''done'' (out @ [product m i])] {}"
      by (auto simp add: sym_exec product_def)
    then show ?thesis
    proof
      assume "s' = st [Exited,
          MultiplySelect ''done'' ''intStream'' ''multipliedStream'' m (wrap64 (i * m)),
          MainRange ''multipliedStream'' ''done'' out] {''intStream''}"
      with s d Nil show ?thesis by (simp add: inv1_C fuel1_st)
    next
      assume "s' = st [Generator ''done'' ''intStream'' [],
          MultiplyRange ''done'' ''intStream'' ''multipliedStream'' m,
          MainRange ''multipliedStream'' ''done'' (out @ [product m i])] {}"
      with s d Nil show ?thesis by (simp add: inv1_A fuel1_st)
    qed
  next
    case (Cons x r)
    with s assms(2) have "s' = st [Generator ''done'' ''intStream'' rest,
         MultiplyRange ''done'' ''intStream'' ''multipliedStream'' m,
         MainRange ''multipliedStream'' ''done'' (out @ [product m i])] {}"
      by (auto simp add: sym_exec product_def)
    with s d show ?thesis
      by (simp add: inv1_A fuel1_st)
  qed
next
  fix i out
  assume s: "s = st [Exited,
      MultiplySelect ''done'' ''intStream'' ''multipliedStream'' m (wrap64 (i * m)),
      MainRange ''multipliedStream'' ''done'' out] {''intStream''}"
    and d: "out @ [product m i] = map (product m) xs"
  with assms(2) have "s' = st [Exited,
      MultiplyRange ''done'' ''intStream'' ''multipliedStream'' m,
      MainRange ''multipliedStream'' ''done'' (out @ [product m i])] {''intStream''}"
    by (auto simp add: sym_exec product_def)
  with s d show ?thesis
    by (simp add: inv1_D fuel1_st)
next
  assume s: "s = st [Exited, MultiplyRange ''done'' ''intStream'' ''multipliedStream'' m,
      MainRange ''multipliedStream'' ''done'' (map (product m) xs)] {''intStream''}"
  with assms(2) have "s' = st [Exited, Closing ''multipliedStream'',
      MainRange ''multipliedStream'' ''done'' (map (product m) xs)] {''intStream''}"
    by (auto simp add: sym_exec)
  with s show ?thesis
    by (simp add: inv1_D fuel1_st)
next
  assume s: "s = st [Exited, Closing ''multipliedStream'',
      MainRange ''multipliedStream'' ''done'' (map (product m) xs)] {''intStream''}"
  with assms(2) have "s' = st [Exited, Exited,
      MainRange ''multipliedStream'' ''done'' (map (product m) xs)]
      {''intStream'', ''multipliedStream''}"
    by (auto simp add: sym_exec)
  with s show ?thesis
    by (simp add: inv1_D fuel1_st)
next
  assume s: "s = st [Exited, Exited,
      MainRange ''multipliedStream'' ''done'' (map (product m) xs)]
      {''intStream'', ''multipliedStream''}"
  with assms(2) have "s' = st [Exited, Exited, MainReturn ''done'' (map (product m) xs)]
      {''intStream'', ''multipliedStream''}"
    by (auto simp add: sym_exec)
  with s show ?thesis
    by (simp add: inv1_D fuel1_st)
next
  assume s: "s = st [Exited, Exited, MainReturn ''done'' (map (product m) xs)]
      {''intStream'', ''multipliedStream''}"
  with assms(2) have "s' = st [Exited, Exited, MainExited (map (product m) xs)]
      {''done'', ''intStream'', ''multipliedStream''}"
    by (auto simp add: sym_exec)
  with s show ?thesis
    by (simp add: inv1_D fuel1_st)
next
  assume s: "s = st [Exited, Exited, MainExited (map (product m) xs)]
      {''done'', ''intStream'', ''multipliedStream''}"
  with assms(2) have False
    by (auto simp add: sym_exec)
  then show ?thesis ..
qed

lemma run_inv1_gen:
  assumes "run s0 es s" and "inv1 xs m s0"
  shows "inv1 xs m s \<and> length es + fuel1 s \<le> fuel1 s0"
  using assms
proof (induction rule: run.induct)
  case (run_nil s)
  then show ?case by simp
next
  case (run_snoc s es s' e s'')
  then have i: "inv1 xs m s'" and l: "length es + fuel1 s' \<le> fuel1 s"
    by simp_all
  from inv1_step [OF i run_snoc.hyps(2)] l show ?case by simp
qed

lemma run_inv1:
  assumes "run (multiply_pipeline xs m) es s"
  shows "inv1 xs m s \<and> length es + fuel1 s \<le> 4 * length xs + 6"
  using run_inv1_gen [OF assms inv1_init]
  by (simp add: multiply_pipeline_def fuel1_st)

text \<open>The only state with nothing left to do is the one where everything has returned.\<close>

lemma inv1_stuck:
  assumes "inv1 xs m s" and "succs s = []"
  shows "s = st [Exited, Exited, MainExited (map (product m) xs)]
               {''done'', ''intStream'', ''multipliedStream''}"
  using assms(1) [unfolded inv1_def]
proof (elim disjE exE conjE)
  fix rest out
  assume "s = st [Generator ''done'' ''intStream'' rest,
     MultiplyRange ''done'' ''intStream'' ''multipliedStream'' m,
     MainRange ''multipliedStream'' ''done'' out] {}"
  with assms(2) have False by (cases rest) (simp_all add: sym_exec)
  then show ?thesis ..
next
  fix rest i out
  assume "s = st [Generator ''done'' ''intStream'' rest,
     MultiplySelect ''done'' ''intStream'' ''multipliedStream'' m (wrap64 (i * m)),
     MainRange ''multipliedStream'' ''done'' out] {}"
  with assms(2) have False by (cases rest) (simp_all add: sym_exec)
  then show ?thesis ..
next
  fix i out
  assume "s = st [Exited,
     MultiplySelect ''done'' ''intStream'' ''multipliedStream'' m (wrap64 (i * m)),
     MainRange ''multipliedStream'' ''done'' out] {''intStream''}"
  with assms(2) have False by (simp add: sym_exec)
  then show ?thesis ..
qed (use assms(2) in \<open>simp_all add: sym_exec\<close>)

lemma inv1_stdout:
  assumes "inv1 xs m s"
  shows "stdout s = take (length (stdout s)) (map (product m) xs)"
proof -
  have P: "out @ ys = zs \<Longrightarrow> out = take (length out) zs" for out ys zs :: "val list"
    by auto
  from assms [unfolded inv1_def] show ?thesis
    by (elim disjE exE conjE) (simp_all add: stdout_def st_def P)
qed

lemma multiply_pipeline_complete_run:
  "\<exists>es s. run (multiply_pipeline xs m) es s \<and> succs s = []"
  using inv1_step inv1_init by (rule maximal_run)

section \<open>Facts about take\<close>

lemma sent_more:
  "\<not> exhausted src (sent src n) \<Longrightarrow> sent src n = n \<and> sent src (Suc n) = Suc n"
  by (cases src) auto

lemma sent_stays:
  "exhausted src (sent src n) \<Longrightarrow> sent src (Suc n) = sent src n \<and> item src n = VNil"
  by (cases src) auto

lemma source_offers:
  "offers (source_at d v src k) =
     (if exhausted src k then [Close v Exited]
      else [Recv d (\<lambda>_. Closing v), Send v (item src k) (source_at d v src (Suc k))])"
proof (cases src)
  case (Finite xs)
  show ?thesis
  proof (cases "length xs \<le> k")
    case True
    with Finite show ?thesis by simp
  next
    case False
    then have "drop k xs = xs ! k # drop (Suc k) xs" by (simp add: Cons_nth_drop_Suc)
    with Finite False show ?thesis by simp
  qed
next
  case (Endless fn)
  then show ?thesis by simp
qed

lemma source_weight: "weight2 (source_at d v src k) = 2"
  by (cases src) simp_all

lemma source_printed: "printed (source_at d v src k) = []"
  by (cases src) simp_all

lemma taken_Suc: "taken src (Suc n) = taken src n @ [item src n]"
  by (simp add: taken_def)

lemma length_taken [simp]: "length (taken src n) = n"
  by (simp add: taken_def)


lemma source_recv:
  assumes "source_ok src C k g" and "Recv c kk \<in> set (offers g)"
  shows "c = ''done'' \<and> kk = (\<lambda>_. Closing ''valueStream'') \<and>
         g = source_at ''done'' ''valueStream'' src k \<and> ''valueStream'' \<notin> C \<and>
         \<not> exhausted src k"
  using assms unfolding source_ok_def by (auto simp: source_offers split: if_splits)

lemma source_send:
  assumes "source_ok src C k g" and "Send c x g' \<in> set (offers g)"
  shows "c = ''valueStream'' \<and> x = item src k \<and>
         g' = source_at ''done'' ''valueStream'' src (Suc k) \<and>
         g = source_at ''done'' ''valueStream'' src k \<and> ''valueStream'' \<notin> C \<and>
         \<not> exhausted src k"
  using assms unfolding source_ok_def by (auto simp: source_offers split: if_splits)

lemma source_close:
  assumes "source_ok src C k g" and "Close c g' \<in> set (offers g)"
  shows "c = ''valueStream'' \<and> g' = Exited \<and> ''valueStream'' \<notin> C \<and>
         (g = source_at ''done'' ''valueStream'' src k \<and> exhausted src k \<or>
          g = Closing ''valueStream'' \<and> ''done'' \<in> C)"
  using assms unfolding source_ok_def by (auto simp: source_offers split: if_splits)

lemma source_wg:
  assumes "source_ok src C k g"
  shows "WgDone g' \<notin> set (offers g) \<and> WgWait g' \<notin> set (offers g)"
  using assms unfolding source_ok_def by (auto simp: source_offers split: if_splits)

lemma taker_recv:
  assumes "taker_ok src num C out g" and "Recv c kk \<in> set (offers g)"
  shows "''takeStream'' \<notin> C \<and> ''done'' \<notin> C \<and> int (length out) < num \<and>
         (c = ''valueStream'' \<and>
          g = TakeLoop ''done'' ''valueStream'' ''takeStream'' num (int (length out)) \<and>
          kk = (\<lambda>r. TakeSelect ''done'' ''valueStream'' ''takeStream'' num (int (length out))
                  (case r of None \<Rightarrow> VNil | Some v \<Rightarrow> v)) \<or>
          c = ''done'')"
  using assms unfolding taker_ok_def by (auto split: if_splits)

lemma taker_send:
  assumes "taker_ok src num C out g" and "Send c x g' \<in> set (offers g)"
  shows "c = ''takeStream'' \<and> x = item src (length out) \<and>
         g = TakeSelect ''done'' ''valueStream'' ''takeStream'' num (int (length out)) x \<and>
         g' = TakeLoop ''done'' ''valueStream'' ''takeStream'' num (int (length out) + 1) \<and>
         int (length out) < num \<and> ''takeStream'' \<notin> C \<and> ''done'' \<notin> C"
  using assms unfolding taker_ok_def by (auto split: if_splits)

lemma taker_close:
  assumes "taker_ok src num C out g" and "Close c g' \<in> set (offers g)"
  shows "c = ''takeStream'' \<and> g' = Exited \<and> ''takeStream'' \<notin> C \<and> ''done'' \<notin> C \<and>
         g = TakeLoop ''done'' ''valueStream'' ''takeStream'' num (int (length out)) \<and>
         length out = nat num"
  using assms unfolding taker_ok_def by (auto split: if_splits)

lemma taker_wg:
  assumes "taker_ok src num C out g"
  shows "WgDone g' \<notin> set (offers g) \<and> WgWait g' \<notin> set (offers g)"
  using assms unfolding taker_ok_def by (auto split: if_splits)

lemma reader_recv:
  assumes "reader_ok C g" and "Recv c kk \<in> set (offers g)"
  shows "c = ''takeStream'' \<and> ''done'' \<notin> C \<and>
         (\<exists>out. g = MainRange ''takeStream'' ''done'' out \<and>
            kk = (\<lambda>r. case r of
                None \<Rightarrow> MainReturn ''done'' out
              | Some v \<Rightarrow> MainRange ''takeStream'' ''done'' (out @ [v])))"
  using assms unfolding reader_ok_def by auto

lemma reader_send: "reader_ok C g \<Longrightarrow> Send c x g' \<notin> set (offers g)"
  unfolding reader_ok_def by auto

lemma reader_close:
  assumes "reader_ok C g" and "Close c g' \<in> set (offers g)"
  shows "c = ''done'' \<and> ''done'' \<notin> C \<and> ''takeStream'' \<in> C \<and>
         (\<exists>out. g = MainReturn ''done'' out \<and> g' = MainExited out)"
  using assms unfolding reader_ok_def by auto

lemma reader_wg:
  assumes "reader_ok C g"
  shows "WgDone g' \<notin> set (offers g) \<and> WgWait g' \<notin> set (offers g)"
  using assms unfolding reader_ok_def by auto

lemma tinvI:
  assumes "\<not> panicked s" and "procs s = [g0, g1, g2]"
    and "source_ok src (closed s) (sent src (received g1 (length (printed g2)))) g0"
    and "taker_ok src num (closed s) (printed g2) g1"
    and "reader_ok (closed s) g2"
    and "printed g2 = taken src (length (printed g2))"
  shows "tinv src num s"
  using assms unfolding tinv_def by blast


lemma source_ok_insert:
  "source_ok src C k g \<Longrightarrow> x \<noteq> ''valueStream'' \<Longrightarrow> source_ok src (insert x C) k g"
  unfolding source_ok_def by auto

lemma taker_ok_insert:
  "taker_ok src num C out g \<Longrightarrow> x \<noteq> ''takeStream'' \<Longrightarrow> x \<noteq> ''done'' \<or> g = Exited \<Longrightarrow>
   taker_ok src num (insert x C) out g"
  unfolding taker_ok_def by auto

lemma reader_ok_insert: "reader_ok C g \<Longrightarrow> x \<noteq> ''done'' \<Longrightarrow> reader_ok (insert x C) g"
  unfolding reader_ok_def by auto

lemma three: "i < length [a, b, c] \<Longrightarrow> i = 0 \<or> i = Suc 0 \<or> i = Suc (Suc 0)"
  by auto

lemma tinv_step:
  assumes "tinv src num s" and "step s e s'"
  shows "tinv src num s' \<and> fuel2 s' < fuel2 s"
proof -
  from assms(1) obtain g0 g1 g2 where np: "\<not> panicked s" and ps: "procs s = [g0, g1, g2]"
    and g0: "source_ok src (closed s) (sent src (received g1 (length (printed g2)))) g0"
    and g1: "taker_ok src num (closed s) (printed g2) g1"
    and g2: "reader_ok (closed s) g2"
    and out: "printed g2 = taken src (length (printed g2))"
    unfolding tinv_def by blast
  let ?k = "sent src (received g1 (length (printed g2)))"
  let ?n = "length (printed g2)"
  from assms(2) show ?thesis
  proof (cases rule: stepE)
    case (recv_closed i c k)
    from recv_closed(2) have "i = 0 \<or> i = Suc 0 \<or> i = Suc (Suc 0)"
      unfolding ps by (rule three)
    then show ?thesis
    proof (elim disjE)
      assume i: "i = 0"
      with recv_closed(3) ps have o: "Recv c k \<in> set (offers g0)" by simp
      note r = source_recv [OF g0 o]
      from r recv_closed(4) have "source_ok src (closed s) ?k (Closing ''valueStream'')"
        by (simp add: source_ok_def)
      with recv_closed(6) np ps i r g1 g2 out
      have "tinv src num s'" by (intro tinvI [where ?g0.0 = "Closing ''valueStream''"]) auto
      moreover from recv_closed(6) ps i r have "fuel2 s' < fuel2 s"
        by (simp add: fuel2_def source_weight)
      ultimately show ?thesis ..
    next
      assume i: "i = Suc 0"
      with recv_closed(3) ps have o: "Recv c k \<in> set (offers g1)" by simp
      note r = taker_recv [OF g1 o]
      from r recv_closed(4) have c: "c = ''valueStream''"
        and t: "g1 = TakeLoop ''done'' ''valueStream'' ''takeStream'' num (int ?n)"
        and k: "k None = TakeSelect ''done'' ''valueStream'' ''takeStream'' num (int ?n) VNil"
        by auto
      from g0 t c recv_closed(4) r have ex: "exhausted src (sent src ?n)"
        by (auto simp: source_ok_def)
      note ss = sent_stays [OF ex]
      from g0 t ss have "source_ok src (closed s) (sent src (received (k None) ?n)) g0"
        by (simp add: k)
      moreover from r ss have "taker_ok src num (closed s) (printed g2) (k None)"
        by (simp add: k taker_ok_def)
      ultimately have "tinv src num s'"
        using recv_closed(6) np ps i g2 out by (intro tinvI [where ?g1.0 = "k None"]) auto
      moreover from recv_closed(6) ps i t k r have "fuel2 s' < fuel2 s"
        by (simp add: fuel2_def)
      ultimately show ?thesis ..
    next
      assume i: "i = Suc (Suc 0)"
      with recv_closed(3) ps have o: "Recv c k \<in> set (offers g2)" by simp
      from reader_recv [OF g2 o] obtain pr where c: "c = ''takeStream''"
        and d: "''done'' \<notin> closed s" and m: "g2 = MainRange ''takeStream'' ''done'' pr"
        and k: "k None = MainReturn ''done'' pr"
        by auto
      from g1 c recv_closed(4) m have t: "g1 = Exited" by (auto simp: taker_ok_def)
      from c d recv_closed(4) have "reader_ok (closed s) (k None)"
        by (simp add: k reader_ok_def)
      with recv_closed(6) np ps i g0 g1 out m t
      have "tinv src num s'" by (intro tinvI [where ?g2.0 = "k None"]) (auto simp: k)
      moreover from recv_closed(6) ps i m k have "fuel2 s' < fuel2 s"
        by (simp add: fuel2_def)
      ultimately show ?thesis ..
    qed
  next
    case (comm i j c k v g')
    from comm(2,3) have ij: "i = 0 \<or> i = Suc 0 \<or> i = Suc (Suc 0)"
      "j = 0 \<or> j = Suc 0 \<or> j = Suc (Suc 0)"
      unfolding ps by (auto dest: three)
    from ij(2) show ?thesis
    proof (elim disjE)
      assume j: "j = 0"
      with comm(6) ps have o: "Send c v g' \<in> set (offers g0)" by simp
      note w = source_send [OF g0 o]
      have i: "i = Suc 0"
      proof (rule ccontr)
        assume "i \<noteq> Suc 0"
        with ij(1) comm(4) j have "i = Suc (Suc 0)" by simp
        with comm(5) ps have "Recv c k \<in> set (offers g2)" by simp
        from reader_recv [OF g2 this] w show False by simp
      qed
      with comm(5) ps have "Recv c k \<in> set (offers g1)" by simp
      note r = taker_recv [OF g1 this]
      from r w have t: "g1 = TakeLoop ''done'' ''valueStream'' ''takeStream'' num (int ?n)"
        and k: "k (Some v) = TakeSelect ''done'' ''valueStream'' ''takeStream'' num (int ?n) v"
        by auto
      from w t have "\<not> exhausted src (sent src ?n)" by simp
      note sm = sent_more [OF this]
      from w t sm have v: "v = item src ?n"
        and g': "g' = source_at ''done'' ''valueStream'' src (Suc ?n)" by simp_all
      from w have vs: "''valueStream'' \<notin> closed s" by simp
      have "received (k (Some v)) ?n = Suc ?n" by (simp add: k)
      with vs sm have "source_ok src (closed s) (sent src (received (k (Some v)) ?n)) g'"
        by (simp add: g' source_ok_def)
      moreover from r have "taker_ok src num (closed s) (printed g2) (k (Some v))"
        unfolding k by (simp add: v taker_ok_def)
      ultimately have "tinv src num s'"
        using comm(9) np ps i j g2 out
        by (intro tinvI [where ?g0.0 = g' and ?g1.0 = "k (Some v)"]) auto
      moreover from comm(9) ps i j t k r w have "fuel2 s' < fuel2 s"
        by (simp add: fuel2_def source_weight)
      ultimately show ?thesis ..
    next
      assume j: "j = Suc 0"
      with comm(6) ps have o: "Send c v g' \<in> set (offers g1)" by simp
      note w = taker_send [OF g1 o]
      have i: "i = Suc (Suc 0)"
      proof (rule ccontr)
        assume "i \<noteq> Suc (Suc 0)"
        with ij(1) comm(4) j have "i = 0" by simp
        with comm(5) ps have "Recv c k \<in> set (offers g0)" by simp
        from source_recv [OF g0 this] w show False by simp
      qed
      with comm(5) ps have "Recv c k \<in> set (offers g2)" by simp
      from reader_recv [OF g2 this] obtain pr
        where m: "g2 = MainRange ''takeStream'' ''done'' pr"
          and k: "k (Some v) = MainRange ''takeStream'' ''done'' (pr @ [v])"
          and d: "''done'' \<notin> closed s"
        by auto
      from m have n: "length pr = ?n" by simp
      from w have t: "g1 = TakeSelect ''done'' ''valueStream'' ''takeStream'' num (int ?n) v"
        and g': "g' = TakeLoop ''done'' ''valueStream'' ''takeStream'' num (int ?n + 1)"
        and v: "v = item src ?n" and lt: "int ?n < num"
        by simp_all
      from out m v have out': "pr @ [v] = taken src (Suc (length pr))"
        by (simp add: taken_Suc)
      from g0 t n have "source_ok src (closed s) (sent src (received g' (length (pr @ [v])))) g0"
        by (simp add: g')
      moreover from w lt n have "taker_ok src num (closed s) (pr @ [v]) g'"
        by (simp add: g' taker_ok_def)
      moreover from d have "reader_ok (closed s) (k (Some v))" by (simp add: k reader_ok_def)
      ultimately have "tinv src num s'"
        using comm(9) np ps i j out'
        by (intro tinvI [where ?g1.0 = g' and ?g2.0 = "k (Some v)"]) (auto simp: k)
      moreover from comm(9) ps i j t g' k m lt have "fuel2 s' < fuel2 s"
        by (simp add: fuel2_def)
      ultimately show ?thesis ..
    next
      assume j: "j = Suc (Suc 0)"
      with comm(6) ps have "Send c v g' \<in> set (offers g2)" by simp
      with reader_send [OF g2] show ?thesis by simp
    qed
  next
    case (closes i c g')
    from closes(2) have "i = 0 \<or> i = Suc 0 \<or> i = Suc (Suc 0)"
      unfolding ps by (rule three)
    then show ?thesis
    proof (elim disjE)
      assume i: "i = 0"
      with closes(3) ps have o: "Close c g' \<in> set (offers g0)" by simp
      note r = source_close [OF g0 o]
      from r have "source_ok src (insert c (closed s)) ?k g'"
        by (auto simp: source_ok_def)
      moreover from r g1 have "taker_ok src num (insert c (closed s)) (printed g2) g1"
        by (intro taker_ok_insert) simp_all
      moreover from r g2 have "reader_ok (insert c (closed s)) g2"
        by (intro reader_ok_insert) simp_all
      ultimately have "tinv src num s'"
        using closes(6) np ps i out by (intro tinvI [where ?g0.0 = g']) auto
      moreover from closes(6) ps i r have "fuel2 s' < fuel2 s"
        by (auto simp: fuel2_def source_weight)
      ultimately show ?thesis ..
    next
      assume i: "i = Suc 0"
      with closes(3) ps have o: "Close c g' \<in> set (offers g1)" by simp
      note r = taker_close [OF g1 o]
      from r g0 have "source_ok src (insert c (closed s)) (sent src (received g' ?n)) g0"
        by (intro source_ok_insert) simp_all
      moreover from r have "taker_ok src num (insert c (closed s)) (printed g2) g'"
        by (simp add: taker_ok_def)
      moreover from r g2 have "reader_ok (insert c (closed s)) g2"
        by (intro reader_ok_insert) simp_all
      ultimately have "tinv src num s'"
        using closes(6) np ps i out by (intro tinvI [where ?g1.0 = g']) auto
      moreover from closes(6) ps i r have "fuel2 s' < fuel2 s"
        by (simp add: fuel2_def)
      ultimately show ?thesis ..
    next
      assume i: "i = Suc (Suc 0)"
      with closes(3) ps have o: "Close c g' \<in> set (offers g2)" by simp
      from reader_close [OF g2 o] obtain pr where c: "c = ''done''"
        and t: "''takeStream'' \<in> closed s"
        and m: "g2 = MainReturn ''done'' pr" and g': "g' = MainExited pr"
        by auto
      from g1 t have e: "g1 = Exited" by (auto simp: taker_ok_def)
      from g0 m c have "source_ok src (insert c (closed s)) (sent src (received g1 (length (printed g')))) g0"
        by (intro source_ok_insert) (simp_all add: g')
      moreover from g1 e m c have "taker_ok src num (insert c (closed s)) (printed g') g1"
        by (intro taker_ok_insert) (simp_all add: g')
      moreover from t c have "reader_ok (insert c (closed s)) g'"
        by (simp add: g' reader_ok_def)
      ultimately have "tinv src num s'"
        using closes(6) np ps i out m by (intro tinvI [where ?g2.0 = g']) (auto simp: g')
      moreover from closes(6) ps i m g' have "fuel2 s' < fuel2 s"
        by (simp add: fuel2_def)
      ultimately show ?thesis ..
    qed
  next
    case (panics i)
    from panics(2) have "i = 0 \<or> i = Suc 0 \<or> i = Suc (Suc 0)"
      unfolding ps by (rule three)
    then show ?thesis
    proof (elim disjE)
      assume "i = 0"
      with panics(5) ps have "(\<exists>c v g'. Send c v g' \<in> set (offers g0) \<and> c \<in> closed s) \<or>
         (\<exists>c g'. Close c g' \<in> set (offers g0) \<and> c \<in> closed s) \<or>
         (\<exists>g'. WgDone g' \<in> set (offers g0))" by auto
      with source_send [OF g0] source_close [OF g0] source_wg [OF g0]
      show ?thesis by blast
    next
      assume "i = Suc 0"
      with panics(5) ps have "(\<exists>c v g'. Send c v g' \<in> set (offers g1) \<and> c \<in> closed s) \<or>
         (\<exists>c g'. Close c g' \<in> set (offers g1) \<and> c \<in> closed s) \<or>
         (\<exists>g'. WgDone g' \<in> set (offers g1))" by auto
      with taker_send [OF g1] taker_close [OF g1] taker_wg [OF g1]
      show ?thesis by blast
    next
      assume "i = Suc (Suc 0)"
      with panics(5) ps have "(\<exists>c v g'. Send c v g' \<in> set (offers g2) \<and> c \<in> closed s) \<or>
         (\<exists>c g'. Close c g' \<in> set (offers g2) \<and> c \<in> closed s) \<or>
         (\<exists>g'. WgDone g' \<in> set (offers g2))" by auto
      with reader_send [OF g2] reader_close [OF g2] reader_wg [OF g2]
      show ?thesis by blast
    qed
  next
    case (wg_done i g')
    from wg_done(2) have "i = 0 \<or> i = Suc 0 \<or> i = Suc (Suc 0)"
      unfolding ps by (rule three)
    with wg_done(3) ps source_wg [OF g0] taker_wg [OF g1] reader_wg [OF g2]
    show ?thesis by auto
  next
    case (wg_wait i g')
    from wg_wait(2) have "i = 0 \<or> i = Suc 0 \<or> i = Suc (Suc 0)"
      unfolding ps by (rule three)
    with wg_wait(3) ps source_wg [OF g0] taker_wg [OF g1] reader_wg [OF g2]
    show ?thesis by auto
  qed
qed


lemma tinv_init: "tinv src num (source_pipeline src num)"
proof -
  have "sent src 0 = 0" by (cases src) simp_all
  then show ?thesis
    by (intro tinvI [where ?g0.0 = "source_at ''done'' ''valueStream'' src 0"
          and ?g1.0 = "TakeLoop ''done'' ''valueStream'' ''takeStream'' num 0"
          and ?g2.0 = "MainRange ''takeStream'' ''done'' []"])
       (simp_all add: source_pipeline_def st_def source_ok_def taker_ok_def reader_ok_def
          taken_def)
qed

lemma fuel2_init: "fuel2 (source_pipeline src num) = 3 * nat num + 5"
  by (simp add: fuel2_def source_pipeline_def st_def source_weight)

lemma tinv_run:
  assumes "run s0 es s" and "tinv src num s0"
  shows "tinv src num s \<and> length es + fuel2 s \<le> fuel2 s0"
  using assms
proof (induction rule: run.induct)
  case (run_nil s)
  then show ?case by simp
next
  case (run_snoc s es s' e s'')
  from run_snoc.IH [OF run_snoc.prems] have i: "tinv src num s'"
    and l: "length es + fuel2 s' \<le> fuel2 s" by simp_all
  from tinv_step [OF i run_snoc.hyps(2)] l show ?case by simp
qed

lemma tinv_stdout:
  assumes "tinv src num s"
  shows "stdout s = taken src (length (stdout s)) \<and> length (stdout s) \<le> nat num"
proof -
  from assms obtain g0 g1 g2 where ps: "procs s = [g0, g1, g2]"
    and g0: "source_ok src (closed s) (sent src (received g1 (length (printed g2)))) g0"
    and g1: "taker_ok src num (closed s) (printed g2) g1"
    and out: "printed g2 = taken src (length (printed g2))"
    unfolding tinv_def by blast
  from g0 have "printed g0 = []" by (auto simp: source_ok_def source_printed)
  moreover from g1 have "printed g1 = []" "length (printed g2) \<le> nat num"
    by (auto simp: taker_ok_def)
  ultimately show ?thesis using ps out by (simp add: stdout_def)
qed

lemma tinv_stuck:
  assumes "tinv src num s" and stuck: "succs s = []"
  shows "procs s = [Exited, Exited, MainExited (taken src (nat num))] \<and>
         ''done'' \<in> closed s \<and> ''valueStream'' \<in> closed s \<and> ''takeStream'' \<in> closed s"
proof -
  from assms(1) obtain g0 g1 g2 where np: "\<not> panicked s" and ps: "procs s = [g0, g1, g2]"
    and g0: "source_ok src (closed s) (sent src (received g1 (length (printed g2)))) g0"
    and g1: "taker_ok src num (closed s) (printed g2) g1"
    and g2: "reader_ok (closed s) g2"
    and out: "printed g2 = taken src (length (printed g2))"
    unfolding tinv_def by blast
  from stuck have no: "\<not> step s e s'" for e s' by (simp add: step_def)
  have l: "0 < length (procs s)" "Suc 0 < length (procs s)" "Suc (Suc 0) < length (procs s)"
    by (simp_all add: ps)
  let ?d = "''done''" and ?v = "''valueStream''" and ?t = "''takeStream''"
  \<comment> \<open>\<open>main\<close> has returned\<close>
  have main: "\<exists>pr. g2 = MainExited pr"
  proof (rule ccontr)
    assume n: "\<not> (\<exists>pr. g2 = MainExited pr)"
    with g2 obtain pr where
      "(g2 = MainRange ?t ?d pr \<and> ?d \<notin> closed s) \<or> (g2 = MainReturn ?d pr \<and> ?d \<notin> closed s)"
      by (auto simp: reader_ok_def)
    moreover have False if "g2 = MainReturn ?d pr" "?d \<notin> closed s"
      using step_closesI [OF np l(3), of ?d "MainExited pr"] that no ps by simp
    ultimately have m: "g2 = MainRange ?t ?d pr" and d: "?d \<notin> closed s" by auto
    have t: "?t \<notin> closed s"
      using step_recv_closedI [OF np l(3), of ?t] m no ps by auto
    from g1 t consider
        (loop) "g1 = TakeLoop ?d ?v ?t num (int (length (printed g2)))"
      | (sel) "g1 = TakeSelect ?d ?v ?t num (int (length (printed g2)))
                 (item src (length (printed g2)))"
      by (auto simp: taker_ok_def)
    then show False
    proof cases
      case sel
      have "Suc 0 \<noteq> Suc (Suc 0)" by simp
      from step_commI [OF np l(3) l(2) this, of ?t _ "item src (length (printed g2))"]
        m sel t no ps
      show False by auto
    next
      case loop
      have i: "int (length (printed g2)) < num"
      proof (rule ccontr)
        assume "\<not> int (length (printed g2)) < num"
        with step_closesI [OF np l(2), of ?t Exited] loop t no ps show False by simp
      qed
      have v: "?v \<notin> closed s"
        using step_recv_closedI [OF np l(2), of ?v] loop i no ps by auto
      let ?k = "sent src (length (printed g2))"
      from g0 v d loop have s0: "g0 = source_at ?d ?v src ?k" by (auto simp: source_ok_def)
      show False
      proof (cases "exhausted src ?k")
        case True
        with step_closesI [OF np l(1), of ?v Exited] s0 v no ps show False
          by (simp add: source_offers)
      next
        case False
        have "0 \<noteq> Suc 0" by simp
        from step_commI [OF np l(2) l(1) this, of ?v _ "item src ?k"] loop i s0 False v no ps
        show False by (auto simp: source_offers)
      qed
    qed
  qed
  then obtain pr where m: "g2 = MainExited pr" ..
  with g2 have d: "?d \<in> closed s" and t: "?t \<in> closed s" by (auto simp: reader_ok_def)
  from g1 t have tk: "g1 = Exited" "length (printed g2) = nat num" by (auto simp: taker_ok_def)
  \<comment> \<open>and so have the others\<close>
  have src: "g0 = Exited \<and> ?v \<in> closed s"
  proof (rule ccontr)
    assume n: "\<not> (g0 = Exited \<and> ?v \<in> closed s)"
    let ?k = "sent src (received g1 (length (printed g2)))"
    from g0 n consider (at) "g0 = source_at ?d ?v src ?k" "?v \<notin> closed s"
      | (closing) "g0 = Closing ?v" "?v \<notin> closed s"
      by (auto simp: source_ok_def)
    then show False
    proof cases
      case at
      show False
      proof (cases "exhausted src ?k")
        case True
        with step_closesI [OF np l(1), of ?v Exited] at no ps show False
          by (simp add: source_offers)
      next
        case False
        with step_recv_closedI [OF np l(1), of ?d] at d no ps show False
          by (auto simp: source_offers)
      qed
    next
      case closing
      with step_closesI [OF np l(1), of ?v Exited] no ps show False by simp
    qed
  qed
  from src tk m out d t ps show ?thesis by auto
qed

lemma take_pipeline_source: "take_pipeline xs num = source_pipeline (Finite xs) num"
  by (simp add: take_pipeline_def source_pipeline_def)


lemma taken_Finite:
  "taken (Finite xs) n = map VInt (take n xs) @ replicate (n - length xs) VNil"
proof (induction n)
  case 0
  then show ?case by (simp add: taken_def)
next
  case (Suc n)
  show ?case
  proof (cases "n < length xs")
    case True
    then show ?thesis by (simp add: taken_Suc Suc take_Suc_conv_app_nth)
  next
    case False
    then have "Suc n - length xs = Suc (n - length xs)" by simp
    with False show ?thesis by (simp add: taken_Suc Suc replicate_append_same)
  qed
qed


lemma source_pipeline_run:
  assumes "run (source_pipeline src num) es s"
  shows "length es \<le> 3 * nat num + 5 \<and>
         stdout s = taken src (length (stdout s)) \<and> length (stdout s) \<le> nat num \<and>
         (succs s = [] \<longrightarrow>
            procs s = [Exited, Exited, MainExited (taken src (nat num))] \<and>
            ''done'' \<in> closed s \<and> ''valueStream'' \<in> closed s \<and> ''takeStream'' \<in> closed s)"
proof -
  from tinv_run [OF assms tinv_init] have i: "tinv src num s"
    and l: "length es + fuel2 s \<le> 3 * nat num + 5"
    by (simp_all add: fuel2_init)
  from l tinv_stdout [OF i] tinv_stuck [OF i] show ?thesis by simp
qed

lemma source_pipeline_complete_run:
  "\<exists>es s. run (source_pipeline src num) es s \<and> succs s = []"
  using tinv_step tinv_init by (rule maximal_run)

section \<open>Facts about what a suspended stage observes\<close>







section \<open>Facts about fanIn\<close>

lemma stranger_recv:
  "stranger d out g \<Longrightarrow> Recv c k \<in> set (offers g) \<Longrightarrow> stranger d out (k r)"
  by (cases g) (auto split: list.splits option.splits val.splits if_splits)

lemma stranger_send:
  "stranger d out g \<Longrightarrow> Send c v g' \<in> set (offers g) \<Longrightarrow> c \<noteq> d \<and> c \<noteq> out \<and> stranger d out g'"
  by (cases g) (auto split: list.splits if_splits)

lemma stranger_close:
  "stranger d out g \<Longrightarrow> Close c g' \<in> set (offers g) \<Longrightarrow> c \<noteq> out \<and> stranger d out g'"
  by (cases g) (auto split: list.splits if_splits)

lemma stranger_wg:
  "stranger d out g \<Longrightarrow> WgDone g' \<notin> set (offers g) \<and> WgWait g' \<notin> set (offers g)"
  by (cases g) (auto split: list.splits if_splits)

lemma stranger_not_forwarding: "stranger d out g \<Longrightarrow> \<not> forwarding g"
  by (cases g) auto

lemma slot_recv:
  assumes "slot_ok d c out C g" and "Recv c' k \<in> set (offers g)"
  shows "(c' = c \<or> c' = d) \<and> forwarding g \<and> forwarding (k r) \<and>
         (c' \<in> C \<longrightarrow> slot_ok d c out C (k None)) \<and>
         (c' \<noteq> d \<longrightarrow> slot_ok d c out C (k (Some v)))"
  using assms unfolding slot_ok_def by (auto split: option.splits)

lemma slot_send:
  assumes "slot_ok d c out C g" and "Send c' v g' \<in> set (offers g)"
  shows "c' = out \<and> forwarding g \<and> forwarding g' \<and> slot_ok d c out C g'"
  using assms unfolding slot_ok_def by auto

lemma slot_close: "slot_ok d c out C g \<Longrightarrow> Close c' g' \<notin> set (offers g)"
  unfolding slot_ok_def by auto

lemma slot_wg_done:
  assumes "slot_ok d c out C g" and "WgDone g' \<in> set (offers g)"
  shows "forwarding g \<and> \<not> forwarding g' \<and> slot_ok d c out C g'"
  using assms unfolding slot_ok_def by auto

lemma slot_wg_wait: "slot_ok d c out C g \<Longrightarrow> WgWait g' \<notin> set (offers g)"
  unfolding slot_ok_def by auto

lemma slot_mono: "slot_ok d c out C g \<Longrightarrow> C \<subseteq> C' \<Longrightarrow> slot_ok d c out C' g"
  unfolding slot_ok_def by auto

lemma closer_offers:
  assumes "closer_ok out C w g"
  shows "(\<forall>c k. Recv c k \<notin> set (offers g)) \<and> (\<forall>c v g'. Send c v g' \<notin> set (offers g)) \<and>
         (\<forall>g'. WgDone g' \<notin> set (offers g)) \<and> \<not> forwarding g \<and>
         (\<forall>c g'. Close c g' \<in> set (offers g) \<longrightarrow> c = out \<and> g' = Exited \<and> w = 0) \<and>
         (\<forall>g'. WgWait g' \<in> set (offers g) \<longrightarrow> g' = FanInClose out \<and> out \<notin> C)"
  using assms unfolding closer_ok_def by auto

lemma count_update:
  "i < length xs \<Longrightarrow>
   length (filter P (xs[i := y])) + (if P (xs ! i) then 1 else 0) =
   length (filter P xs) + (if P y then 1 else 0)"
proof (induction xs arbitrary: i)
  case Nil
  then show ?case by simp
next
  case (Cons x xs)
  then show ?case by (cases i) auto
qed

lemma count_update_same:
  "i < length xs \<Longrightarrow> P (xs ! i) = P y \<Longrightarrow>
   length (filter P (xs[i := y])) = length (filter P xs)"
  using count_update [of i xs P y] by (simp split: if_splits)


lemma fanin_inv_step:
  assumes inv: "fanin_inv d cs out s" and ne: "d \<noteq> out" and st: "step s e s'"
  shows "fanin_inv d cs out s'"
proof -
  let ?n = "length cs"
  let ?ps = "procs s"
  from inv have len: "?n < length ?ps"
    and slots: "\<And>k. k < ?n \<Longrightarrow> slot_ok d (cs ! k) out (closed s) (?ps ! k)"
    and closer: "closer_ok out (closed s) (wg s) (?ps ! ?n)"
    and strangers: "\<And>k. ?n < k \<Longrightarrow> k < length ?ps \<Longrightarrow> stranger d out (?ps ! k)"
    and count: "wg s = int (length (filter forwarding ?ps))"
    unfolding fanin_inv_def by auto
  note co = closer_offers [OF closer]
  from co have co_close: "\<And>c g'. Close c g' \<in> set (offers (?ps ! ?n)) \<Longrightarrow>
      c = out \<and> g' = Exited \<and> wg s = 0"
    and co_wait: "\<And>g'. WgWait g' \<in> set (offers (?ps ! ?n)) \<Longrightarrow>
      g' = FanInClose out \<and> out \<notin> closed s"
    and co_fw: "\<not> forwarding (?ps ! ?n)"
    by blast+
  from st show ?thesis
  proof (cases rule: stepE)
    case (recv_closed i c k)
    have fw: "forwarding (k None) = forwarding (?ps ! i)"
    proof -
      consider "i < ?n" | "i = ?n" | "?n < i" by linarith
      then show ?thesis
      proof cases
        case 1
        from slot_recv [OF slots [OF 1] recv_closed(3)] show ?thesis by simp
      next
        case 2
        with co recv_closed(3) show ?thesis by simp
      next
        case 3
        from strangers [OF 3 recv_closed(2)]
          stranger_recv [OF strangers [OF 3 recv_closed(2)] recv_closed(3), of None]
        show ?thesis by (auto dest: stranger_not_forwarding)
      qed
    qed
    have "slot_ok d (cs ! k') out (closed s') (procs s' ! k')" if "k' < ?n" for k'
    proof (cases "k' = i")
      case True
      from slot_recv [OF slots [OF that] recv_closed(3) [folded True]] recv_closed(4)
      have "slot_ok d (cs ! k') out (closed s) (k None)" by simp
      with True recv_closed(2,6) show ?thesis by simp
    next
      case False
      with slots [OF that] recv_closed(6) show ?thesis by simp
    qed
    moreover have "closer_ok out (closed s') (wg s') (procs s' ! ?n)"
    proof (cases "i = ?n")
      case True
      with co recv_closed(3) show ?thesis by simp
    next
      case False
      with closer recv_closed(6) show ?thesis by simp
    qed
    moreover have "stranger d out (procs s' ! k')" if "?n < k'" "k' < length (procs s')" for k'
    proof (cases "k' = i")
      case True
      from strangers [of k'] that recv_closed(6) have "stranger d out (?ps ! i)"
        by (simp add: True)
      from stranger_recv [OF this recv_closed(3)] True recv_closed(2,6) show ?thesis by simp
    next
      case False
      with strangers [of k'] that recv_closed(6) show ?thesis by simp
    qed
    moreover have "wg s' = int (length (filter forwarding (procs s')))"
      using count recv_closed(2,6) fw by (simp add: count_update_same)
    ultimately show ?thesis
      using len recv_closed(6) unfolding fanin_inv_def by simp
  next
    case (comm i j c k v g')
    have role_i: "(i < ?n \<longrightarrow> slot_ok d (cs ! i) out (closed s) (k (Some v))) \<and> i \<noteq> ?n \<and>
        (?n < i \<longrightarrow> stranger d out (k (Some v))) \<and> forwarding (k (Some v)) = forwarding (?ps ! i)"
      and role_j: "(j < ?n \<longrightarrow> slot_ok d (cs ! j) out (closed s) g') \<and> j \<noteq> ?n \<and>
        (?n < j \<longrightarrow> stranger d out g') \<and> forwarding g' = forwarding (?ps ! j)"
    proof -
      have cd: "c \<noteq> d"
      proof -
        consider "j < ?n" | "j = ?n" | "?n < j" by linarith
        then show ?thesis
        proof cases
          case 1
          from slot_send [OF slots [OF 1] comm(6)] ne show ?thesis by simp
        next
          case 2
          with co comm(6) show ?thesis by simp
        next
          case 3
          from stranger_send [OF strangers [OF 3 comm(3)] comm(6)] show ?thesis by simp
        qed
      qed
      show "(j < ?n \<longrightarrow> slot_ok d (cs ! j) out (closed s) g') \<and> j \<noteq> ?n \<and>
        (?n < j \<longrightarrow> stranger d out g') \<and> forwarding g' = forwarding (?ps ! j)"
      proof -
        consider "j < ?n" | "j = ?n" | "?n < j" by linarith
        then show ?thesis
        proof cases
          case 1
          from slot_send [OF slots [OF 1] comm(6)] 1 show ?thesis by simp
        next
          case 2
          with co comm(6) show ?thesis by simp
        next
          case 3
          from stranger_send [OF strangers [OF 3 comm(3)] comm(6)] 3
            strangers [OF 3 comm(3)]
          show ?thesis by (auto dest: stranger_not_forwarding)
        qed
      qed
      show "(i < ?n \<longrightarrow> slot_ok d (cs ! i) out (closed s) (k (Some v))) \<and> i \<noteq> ?n \<and>
        (?n < i \<longrightarrow> stranger d out (k (Some v))) \<and> forwarding (k (Some v)) = forwarding (?ps ! i)"
      proof -
        consider "i < ?n" | "i = ?n" | "?n < i" by linarith
        then show ?thesis
        proof cases
          case 1
          from slot_recv [OF slots [OF 1] comm(5), of "Some v" v] cd 1 show ?thesis by simp
        next
          case 2
          with co comm(5) show ?thesis by simp
        next
          case 3
          from stranger_recv [OF strangers [OF 3 comm(2)] comm(5)] 3
            strangers [OF 3 comm(2)]
          show ?thesis by (auto dest: stranger_not_forwarding)
        qed
      qed
    qed
    have ps': "procs s' = ?ps[i := k (Some v), j := g']" and cl: "closed s' = closed s"
      and w: "wg s' = wg s"
      using comm(9) by simp_all
    have nth: "procs s' ! k' = (if k' = j then g' else if k' = i then k (Some v) else ?ps ! k')"
      if "k' < length ?ps" for k'
      using that comm(2,3) unfolding ps' by (simp add: nth_list_update)
    have "slot_ok d (cs ! k') out (closed s') (procs s' ! k')" if "k' < ?n" for k'
      using that len role_i role_j slots [OF that] by (simp add: nth cl)
    moreover have "closer_ok out (closed s') (wg s') (procs s' ! ?n)"
      using len role_i role_j closer by (simp add: nth cl w)
    moreover have "stranger d out (procs s' ! k')" if "?n < k'" "k' < length (procs s')" for k'
    proof -
      from that have "k' < length ?ps" by (simp add: ps')
      with that role_i role_j strangers [of k'] show ?thesis by (simp add: nth)
    qed
    moreover have "wg s' = int (length (filter forwarding (procs s')))"
    proof -
      have "length (filter forwarding (?ps[i := k (Some v)])) = length (filter forwarding ?ps)"
        using comm(2) role_i by (intro count_update_same) simp_all
      moreover have "length (filter forwarding (?ps[i := k (Some v), j := g'])) =
          length (filter forwarding (?ps[i := k (Some v)]))"
        using comm(3,4) role_j by (intro count_update_same) simp_all
      ultimately show ?thesis using count by (simp add: ps' w)
    qed
    ultimately show ?thesis
      using len unfolding fanin_inv_def by (simp add: ps')
  next
    case (closes i c g')
    have ps': "procs s' = ?ps[i := g']" and cl: "closed s' = insert c (closed s)"
      and w: "wg s' = wg s"
      using closes(6) by simp_all
    have inn: "i \<ge> ?n"
    proof (rule ccontr)
      assume "\<not> ?n \<le> i"
      then have "i < ?n" by simp
      from slot_close [OF slots [OF this]] closes(3) show False by blast
    qed
    have fw: "forwarding g' = forwarding (?ps ! i)"
    proof (cases "i = ?n")
      case True
      with co_close [of c g'] co_fw closes(3) show ?thesis by simp
    next
      case False
      with inn have 3: "?n < i" by simp
      from stranger_close [OF strangers [OF 3 closes(2)] closes(3)] strangers [OF 3 closes(2)]
      show ?thesis by (auto dest: stranger_not_forwarding)
    qed
    have "slot_ok d (cs ! k') out (closed s') (procs s' ! k')" if "k' < ?n" for k'
      using slot_mono [OF slots [OF that], of "closed s'"] that inn by (auto simp: ps' cl)
    moreover have "closer_ok out (closed s') (wg s') (procs s' ! ?n)"
    proof (cases "i = ?n")
      case True
      with co_close [of c g'] closes(3) have "c = out" "g' = Exited" "wg s = 0" by auto
      with True len show ?thesis by (simp add: ps' cl w closer_ok_def)
    next
      case False
      with inn have 3: "?n < i" by simp
      from stranger_close [OF strangers [OF 3 closes(2)] closes(3)] have "c \<noteq> out" by simp
      with closer False show ?thesis by (auto simp: ps' cl w closer_ok_def)
    qed
    moreover have "stranger d out (procs s' ! k')" if "?n < k'" "k' < length (procs s')" for k'
    proof (cases "k' = i")
      case True
      with that have 3: "?n < i" by simp
      from stranger_close [OF strangers [OF 3 closes(2)] closes(3)] True closes(2)
      show ?thesis by (simp add: ps')
    next
      case False
      with strangers [of k'] that show ?thesis by (simp add: ps')
    qed
    moreover have "wg s' = int (length (filter forwarding (procs s')))"
      using count closes(2) fw by (simp add: ps' w count_update_same)
    ultimately show ?thesis
      using len unfolding fanin_inv_def by (simp add: ps')
  next
    case (panics i)
    then have eq: "procs s' = procs s" "closed s' = closed s" "wg s' = wg s" by simp_all
    from inv show ?thesis unfolding fanin_inv_def eq .
  next
    case (wg_done i g')
    have ps': "procs s' = ?ps[i := g']" and cl: "closed s' = closed s"
      and w: "wg s' = wg s - 1"
      using wg_done(6) by simp_all
    have i: "i < ?n"
    proof (rule ccontr)
      assume "\<not> i < ?n"
      then consider "i = ?n" | "?n < i" by linarith
      then show False
      proof cases
        case 1
        with co wg_done(3) show False by simp
      next
        case 2
        from stranger_wg [OF strangers [OF 2 wg_done(2)]] wg_done(3) show False by blast
      qed
    qed
    note sw = slot_wg_done [OF slots [OF i] wg_done(3)]
    have "slot_ok d (cs ! k') out (closed s') (procs s' ! k')" if "k' < ?n" for k'
      using slots [OF that] sw wg_done(2) by (cases "k' = i") (simp_all add: ps' cl)
    moreover have "closer_ok out (closed s') (wg s') (procs s' ! ?n)"
      using closer wg_done(4) i by (auto simp: ps' cl w closer_ok_def)
    moreover have "stranger d out (procs s' ! k')" if "?n < k'" "k' < length (procs s')" for k'
      using strangers [of k'] that i by (simp add: ps')
    moreover have "wg s' = int (length (filter forwarding (procs s')))"
      using count_update [OF wg_done(2), of forwarding g'] sw count wg_done(4)
      by (simp add: ps' w)
    ultimately show ?thesis
      using len unfolding fanin_inv_def by (simp add: ps')
  next
    case (wg_wait i g')
    have ps': "procs s' = ?ps[i := g']" and cl: "closed s' = closed s"
      and w: "wg s' = wg s"
      using wg_wait(6) by simp_all
    have i: "i = ?n"
    proof (rule ccontr)
      assume "i \<noteq> ?n"
      then consider "i < ?n" | "?n < i" by linarith
      then show False
      proof cases
        case 1
        from slot_wg_wait [OF slots [OF 1]] wg_wait(3) show False by blast
      next
        case 2
        from stranger_wg [OF strangers [OF 2 wg_wait(2)]] wg_wait(3) show False by blast
      qed
    qed
    from co_wait [of g'] wg_wait(3) i have g': "g' = FanInClose out" "out \<notin> closed s" by auto
    have "slot_ok d (cs ! k') out (closed s') (procs s' ! k')" if "k' < ?n" for k'
      using slots [OF that] that i by (simp add: ps' cl)
    moreover have "closer_ok out (closed s') (wg s') (procs s' ! ?n)"
      using g' wg_wait(2,4) i by (simp add: ps' cl w closer_ok_def)
    moreover have "stranger d out (procs s' ! k')" if "?n < k'" "k' < length (procs s')" for k'
      using strangers [of k'] that i by (simp add: ps')
    moreover have "wg s' = int (length (filter forwarding (procs s')))"
      using count wg_wait(2) g' i closer
      by (auto simp: ps' w closer_ok_def intro!: arg_cong [where f = int] count_update_same [symmetric])
    ultimately show ?thesis
      using len unfolding fanin_inv_def by (simp add: ps')
  qed
qed


lemma fanin_inv_init:
  assumes "procs s0 = fanIn d cs out @ env" and "\<forall>g \<in> set env. stranger d out g"
    and "wg s0 = int (length cs)" and "out \<notin> closed s0"
  shows "fanin_inv d cs out s0"
proof -
  have ps: "procs s0 = map (\<lambda>c. MultiplexRange d c out) cs @ FanInWait out # env"
    using assms(1) by (simp add: fanIn_def)
  have "filter forwarding env = []"
    using assms(2) by (auto simp: filter_empty_conv dest: stranger_not_forwarding)
  moreover have "filter forwarding (map (\<lambda>c. MultiplexRange d c out) cs) =
      map (\<lambda>c. MultiplexRange d c out) cs"
    by (induction cs) auto
  ultimately have cnt: "length (filter forwarding (procs s0)) = length cs"
    by (simp add: ps)
  have slot: "slot_ok d (cs ! k) out (closed s0) (procs s0 ! k)" if "k < length cs" for k
    using that by (simp add: ps nth_append slot_ok_def)
  have closer: "closer_ok out (closed s0) (wg s0) (procs s0 ! length cs)"
    using assms(4) by (simp add: ps nth_append closer_ok_def)
  have str: "stranger d out (procs s0 ! k)" if "length cs < k" "k < length (procs s0)" for k
  proof -
    from that have "procs s0 ! k = env ! (k - length cs - 1)"
      by (simp add: ps nth_append nth_Cons')
    moreover from that have "k - length cs - 1 < length env" by (simp add: ps)
    ultimately show ?thesis using assms(2) by simp
  qed
  show ?thesis
    unfolding fanin_inv_def using slot closer str cnt assms(3) by (simp add: ps)
qed

lemma fanin_inv_run:
  assumes "run s0 es s" and "fanin_inv d cs out s0" and "d \<noteq> out"
  shows "fanin_inv d cs out s"
  using assms by (induction rule: run.induct) (auto intro: fanin_inv_step)

text \<open>A channel that was open at the start is closed by at most one step of a run.\<close>

lemma closes_once:
  assumes "run s0 es s" and "c \<notin> closed s0"
  shows "length (filter (is_close c) es) = (if c \<in> closed s then 1 else 0)"
  using assms
proof (induction rule: run.induct)
  case (run_nil s)
  then show ?case by simp
next
  case (run_snoc s es s' e s'')
  from run_snoc.hyps(2) show ?case
  proof (cases rule: stepE)
    case (closes i c' g')
    with run_snoc.IH [OF run_snoc.prems] show ?thesis by (auto split: if_splits)
  qed (use run_snoc.IH [OF run_snoc.prems] in \<open>auto split: if_splits\<close>)
qed

lemma fanin_closed_all_done:
  assumes "fanin_inv d cs out s" and "out \<in> closed s" and "k < length cs"
  shows "procs s ! k = Exited \<and> (cs ! k \<in> closed s \<or> d \<in> closed s)"
proof -
  from assms(1) have len: "length cs < length (procs s)"
    and slot: "slot_ok d (cs ! k) out (closed s) (procs s ! k)"
    and closer: "closer_ok out (closed s) (wg s) (procs s ! length cs)"
    and count: "wg s = int (length (filter forwarding (procs s)))"
    using assms(3) unfolding fanin_inv_def by auto
  from closer assms(2) have "wg s = 0" by (auto simp: closer_ok_def)
  with count have "filter forwarding (procs s) = []" by simp
  moreover from len assms(3) have "procs s ! k \<in> set (procs s)" by simp
  ultimately have "\<not> forwarding (procs s ! k)" by (auto simp: filter_empty_conv)
  with slot show ?thesis by (auto simp: slot_ok_def)
qed

lemma fanin_all_done_closes:
  assumes "fanin_inv d cs out s" and "\<forall>k < length cs. procs s ! k = Exited"
    and "\<not> panicked s" and "out \<notin> closed s"
  shows "\<exists>es' s'. run s es' s' \<and> length es' \<le> 2 \<and> out \<in> closed s'"
proof -
  let ?n = "length cs"
  from assms(1) have len: "?n < length (procs s)"
    and closer: "closer_ok out (closed s) (wg s) (procs s ! ?n)"
    and strangers: "\<And>k. ?n < k \<Longrightarrow> k < length (procs s) \<Longrightarrow> stranger d out (procs s ! k)"
    and count: "wg s = int (length (filter forwarding (procs s)))"
    unfolding fanin_inv_def by auto
  have "\<not> forwarding g" if "g \<in> set (procs s)" for g
  proof -
    from that obtain k where k: "k < length (procs s)" "g = procs s ! k"
      by (auto simp: in_set_conv_nth)
    consider "k < ?n" | "k = ?n" | "?n < k" by linarith
    then show ?thesis
    proof cases
      case 1 with assms(2) k show ?thesis by simp
    next
      case 2 with closer k show ?thesis by (auto simp: closer_ok_def)
    next
      case 3 from strangers [OF 3 k(1)] k show ?thesis by (auto dest: stranger_not_forwarding)
    qed
  qed
  then have "filter forwarding (procs s) = []" by (auto simp: filter_empty_conv)
  with count have w: "wg s = 0" by simp
  from closer assms(4) consider "procs s ! ?n = FanInWait out" | "procs s ! ?n = FanInClose out"
    by (auto simp: closer_ok_def)
  then show ?thesis
  proof cases
    case 1
    let ?s1 = "s\<lparr>procs := (procs s)[?n := FanInClose out]\<rparr>"
    let ?s2 = "?s1\<lparr>procs := (procs ?s1)[?n := Exited], closed := insert out (closed ?s1)\<rparr>"
    from 1 have "WgWait (FanInClose out) \<in> set (offers (procs s ! ?n))" by simp
    from step_wg_waitI [OF assms(3) len this w] have s1: "step s (WgWaitEv ?n) ?s1" .
    have "step ?s1 (Closes ?n out) ?s2"
      using assms(3,4) len by (intro step_closesI) simp_all
    with s1 have "run s ([] @ [WgWaitEv ?n] @ [Closes ?n out]) ?s2"
      using run_nil run_snoc by (metis append_assoc)
    then show ?thesis by (intro exI [of _ "[] @ [WgWaitEv ?n] @ [Closes ?n out]"] exI [of _ ?s2]) simp
  next
    case 2
    let ?s2 = "s\<lparr>procs := (procs s)[?n := Exited], closed := insert out (closed s)\<rparr>"
    from 2 have "Close out Exited \<in> set (offers (procs s ! ?n))" by simp
    from step_closesI [OF assms(3) len this assms(4)] have "step s (Closes ?n out) ?s2" .
    then have "run s ([] @ [Closes ?n out]) ?s2" using run_nil run_snoc by blast
    then show ?thesis by (intro exI [of _ "[] @ [Closes ?n out]"] exI [of _ ?s2]) simp
  qed
qed

lemma fanin_demo_run:
  "run (fanin_demo (fanIn ''done'' [''c''] ''multiplexedStream'' @ [Generator ''done'' ''c'' []]) {} 1)
     [Closes 2 ''c'', RecvClosed 0 ''c'', WgDoneEv 0, WgWaitEv 1, Closes 1 ''multiplexedStream'']
     (fanin_demo [Exited, Exited, Exited] {''multiplexedStream'', ''c''} 0)"
proof -
  let ?m = "''multiplexedStream''"
  have 0: "run (fanin_demo [MultiplexRange ''done'' ''c'' ?m, FanInWait ?m, Generator ''done'' ''c'' []] {} 1) []
    (fanin_demo [MultiplexRange ''done'' ''c'' ?m, FanInWait ?m, Generator ''done'' ''c'' []] {} 1)"
    by (rule run_nil)
  have 1: "step (fanin_demo [MultiplexRange ''done'' ''c'' ?m, FanInWait ?m, Generator ''done'' ''c'' []] {} 1)
    (Closes 2 ''c'') (fanin_demo [MultiplexRange ''done'' ''c'' ?m, FanInWait ?m, Exited] {''c''} 1)"
    by (simp add: sym_exec fanin_demo_def)
  have 2: "step (fanin_demo [MultiplexRange ''done'' ''c'' ?m, FanInWait ?m, Exited] {''c''} 1)
    (RecvClosed 0 ''c'') (fanin_demo [MultiplexDone, FanInWait ?m, Exited] {''c''} 1)"
    by (simp add: sym_exec fanin_demo_def)
  have 3: "step (fanin_demo [MultiplexDone, FanInWait ?m, Exited] {''c''} 1)
    (WgDoneEv 0) (fanin_demo [Exited, FanInWait ?m, Exited] {''c''} 0)"
    by (simp add: sym_exec fanin_demo_def)
  have 4: "step (fanin_demo [Exited, FanInWait ?m, Exited] {''c''} 0)
    (WgWaitEv 1) (fanin_demo [Exited, FanInClose ?m, Exited] {''c''} 0)"
    by (simp add: sym_exec fanin_demo_def)
  have 5: "step (fanin_demo [Exited, FanInClose ?m, Exited] {''c''} 0)
    (Closes 1 ?m) (fanin_demo [Exited, Exited, Exited] {?m, ''c''} 0)"
    by (simp add: sym_exec fanin_demo_def)
  from run_snoc [OF run_snoc [OF run_snoc [OF run_snoc [OF run_snoc [OF 0 1] 2] 3] 4] 5]
  show ?thesis by (simp add: fanIn_def)
qed

text \<open>
  The goroutines of \<open>fanIn\<close> never panic, and the merged stream is closed by the closer
  only.
\<close>

lemma fanin_step_events:
  assumes inv: "fanin_inv d cs out s" and st: "step s e s'"
  shows "(e = Closes i out \<longrightarrow> i = length cs) \<and> (e = Panics i \<longrightarrow> length cs < i)"
proof -
  let ?n = "length cs"
  let ?ps = "procs s"
  from inv have len: "?n < length ?ps"
    and slots: "\<And>k. k < ?n \<Longrightarrow> slot_ok d (cs ! k) out (closed s) (?ps ! k)"
    and closer: "closer_ok out (closed s) (wg s) (?ps ! ?n)"
    and strangers: "\<And>k. ?n < k \<Longrightarrow> k < length ?ps \<Longrightarrow> stranger d out (?ps ! k)"
    and count: "wg s = int (length (filter forwarding ?ps))"
    unfolding fanin_inv_def by auto
  have counted: "0 < wg s \<and> out \<notin> closed s" if "k < ?n" "forwarding (?ps ! k)" for k
  proof -
    from len that(1) have "?ps ! k \<in> set ?ps" by simp
    with that(2) have "filter forwarding ?ps \<noteq> []" by (auto simp: filter_empty_conv)
    with count have "0 < wg s" by simp
    with closer show ?thesis by (auto simp: closer_ok_def)
  qed
  from st show ?thesis
  proof (cases rule: stepE)
    case (closes j c g')
    have "j = ?n" if c: "c = out"
    proof (rule ccontr)
      assume "j \<noteq> ?n"
      then consider "j < ?n" | "?n < j" by linarith
      then show False
      proof cases
        case 1
        from slot_close [OF slots [OF 1]] closes(3) show False by blast
      next
        case 2
        from stranger_close [OF strangers [OF 2 closes(2)] closes(3)] c show False by simp
      qed
    qed
    with closes(5) show ?thesis by auto
  next
    case (panics j)
    have "?n < j"
    proof (rule ccontr)
      assume "\<not> ?n < j"
      then consider "j < ?n" | "j = ?n" by linarith
      then show False
      proof cases
        case 1
        note sl = slots [OF 1]
        from panics(5) show False
        proof (elim disjE exE conjE)
          fix c v g'
          assume o: "Send c v g' \<in> set (offers (?ps ! j))" and c: "c \<in> closed s"
          from slot_send [OF sl o] counted [OF 1] c show False by simp
        next
          fix c g'
          assume "Close c g' \<in> set (offers (?ps ! j))"
          with slot_close [OF sl] show False by blast
        next
          fix g'
          assume o: "WgDone g' \<in> set (offers (?ps ! j))" and w: "wg s \<le> 0"
          from slot_wg_done [OF sl o] counted [OF 1] w show False by simp
        qed
      next
        case 2
        note co = closer_offers [OF closer]
        from panics(5) show False
        proof (elim disjE exE conjE)
          fix c v g'
          assume "Send c v g' \<in> set (offers (?ps ! j))"
          with co 2 show False by blast
        next
          fix c g'
          assume o: "Close c g' \<in> set (offers (?ps ! j))" and c: "c \<in> closed s"
          with closer 2 show False by (auto simp: closer_ok_def)
        next
          fix g'
          assume "WgDone g' \<in> set (offers (?ps ! j))"
          with co 2 show False by blast
        qed
      qed
    qed
    with panics(3) show ?thesis by auto
  qed auto
qed

lemma fanin_run_events:
  assumes "run s0 es s" and "fanin_inv d cs out s0" and "d \<noteq> out"
  shows "(Closes i out \<in> set es \<longrightarrow> i = length cs) \<and> (Panics i \<in> set es \<longrightarrow> length cs < i)"
  using assms
proof (induction rule: run.induct)
  case (run_nil s)
  then show ?case by simp
next
  case (run_snoc s es s' e s'')
  from fanin_inv_run [OF run_snoc.hyps(1) run_snoc.prems] have "fanin_inv d cs out s'" .
  from fanin_step_events [OF this run_snoc.hyps(2), of i] run_snoc.IH [OF run_snoc.prems]
  show ?case by auto
qed

lemma upt_six: "[0..<6] = [0, 1, 2, 3, 4, 5]" "[0..<5] = [0, 1, 2, 3, 4]"
  by (simp_all add: upt_rec)

lemmas demo_exec = step_def succs_def partners_def fanin_demo_def upt_six

lemma fanin_two_run:
  "run (fanin_demo [MultiplexRange ''done'' ''c1'' ''multiplexedStream'', MultiplexRange ''done'' ''c2'' ''multiplexedStream'', FanInWait ''multiplexedStream'', Generator ''done'' ''c1'' [1], Generator ''done'' ''c2'' [2], MainRange ''multiplexedStream'' ''done'' []] {} 2)
     [Comm 3 0 ''c1'' (VInt 1), Comm 0 5 ''multiplexedStream'' (VInt 1), Closes 3 ''c1'', RecvClosed 0 ''c1'', WgDoneEv 0, Comm 4 1 ''c2'' (VInt 2), Comm 1 5 ''multiplexedStream'' (VInt 2), Closes 4 ''c2'', RecvClosed 1 ''c2'', WgDoneEv 1, WgWaitEv 2, Closes 2 ''multiplexedStream'']
     (fanin_demo [Exited, Exited, Exited, Exited, Exited, MainRange ''multiplexedStream'' ''done'' [VInt 1, VInt 2]] {''multiplexedStream'', ''c2'', ''c1''} 0)"
proof -
  have 0: "run (fanin_demo [MultiplexRange ''done'' ''c1'' ''multiplexedStream'', MultiplexRange ''done'' ''c2'' ''multiplexedStream'', FanInWait ''multiplexedStream'', Generator ''done'' ''c1'' [1], Generator ''done'' ''c2'' [2], MainRange ''multiplexedStream'' ''done'' []] {} 2) [] (fanin_demo [MultiplexRange ''done'' ''c1'' ''multiplexedStream'', MultiplexRange ''done'' ''c2'' ''multiplexedStream'', FanInWait ''multiplexedStream'', Generator ''done'' ''c1'' [1], Generator ''done'' ''c2'' [2], MainRange ''multiplexedStream'' ''done'' []] {} 2)" by (rule run_nil)
  have s1: "step (fanin_demo [MultiplexRange ''done'' ''c1'' ''multiplexedStream'', MultiplexRange ''done'' ''c2'' ''multiplexedStream'', FanInWait ''multiplexedStream'', Generator ''done'' ''c1'' [1], Generator ''done'' ''c2'' [2], MainRange ''multiplexedStream'' ''done'' []] {} 2)
      (Comm 3 0 ''c1'' (VInt 1))
      (fanin_demo [MultiplexSelect ''done'' ''c1'' ''multiplexedStream'' (VInt 1), MultiplexRange ''done'' ''c2'' ''multiplexedStream'', FanInWait ''multiplexedStream'', Generator ''done'' ''c1'' [], Generator ''done'' ''c2'' [2], MainRange ''multiplexedStream'' ''done'' []] {} 2)"
    by (simp add: demo_exec)
  have s2: "step (fanin_demo [MultiplexSelect ''done'' ''c1'' ''multiplexedStream'' (VInt 1), MultiplexRange ''done'' ''c2'' ''multiplexedStream'', FanInWait ''multiplexedStream'', Generator ''done'' ''c1'' [], Generator ''done'' ''c2'' [2], MainRange ''multiplexedStream'' ''done'' []] {} 2)
      (Comm 0 5 ''multiplexedStream'' (VInt 1))
      (fanin_demo [MultiplexRange ''done'' ''c1'' ''multiplexedStream'', MultiplexRange ''done'' ''c2'' ''multiplexedStream'', FanInWait ''multiplexedStream'', Generator ''done'' ''c1'' [], Generator ''done'' ''c2'' [2], MainRange ''multiplexedStream'' ''done'' [VInt 1]] {} 2)"
    by (simp add: demo_exec)
  have s3: "step (fanin_demo [MultiplexRange ''done'' ''c1'' ''multiplexedStream'', MultiplexRange ''done'' ''c2'' ''multiplexedStream'', FanInWait ''multiplexedStream'', Generator ''done'' ''c1'' [], Generator ''done'' ''c2'' [2], MainRange ''multiplexedStream'' ''done'' [VInt 1]] {} 2)
      (Closes 3 ''c1'')
      (fanin_demo [MultiplexRange ''done'' ''c1'' ''multiplexedStream'', MultiplexRange ''done'' ''c2'' ''multiplexedStream'', FanInWait ''multiplexedStream'', Exited, Generator ''done'' ''c2'' [2], MainRange ''multiplexedStream'' ''done'' [VInt 1]] {''c1''} 2)"
    by (simp add: demo_exec)
  have s4: "step (fanin_demo [MultiplexRange ''done'' ''c1'' ''multiplexedStream'', MultiplexRange ''done'' ''c2'' ''multiplexedStream'', FanInWait ''multiplexedStream'', Exited, Generator ''done'' ''c2'' [2], MainRange ''multiplexedStream'' ''done'' [VInt 1]] {''c1''} 2)
      (RecvClosed 0 ''c1'')
      (fanin_demo [MultiplexDone, MultiplexRange ''done'' ''c2'' ''multiplexedStream'', FanInWait ''multiplexedStream'', Exited, Generator ''done'' ''c2'' [2], MainRange ''multiplexedStream'' ''done'' [VInt 1]] {''c1''} 2)"
    by (simp add: demo_exec)
  have s5: "step (fanin_demo [MultiplexDone, MultiplexRange ''done'' ''c2'' ''multiplexedStream'', FanInWait ''multiplexedStream'', Exited, Generator ''done'' ''c2'' [2], MainRange ''multiplexedStream'' ''done'' [VInt 1]] {''c1''} 2)
      (WgDoneEv 0)
      (fanin_demo [Exited, MultiplexRange ''done'' ''c2'' ''multiplexedStream'', FanInWait ''multiplexedStream'', Exited, Generator ''done'' ''c2'' [2], MainRange ''multiplexedStream'' ''done'' [VInt 1]] {''c1''} 1)"
    by (simp add: demo_exec)
  have s6: "step (fanin_demo [Exited, MultiplexRange ''done'' ''c2'' ''multiplexedStream'', FanInWait ''multiplexedStream'', Exited, Generator ''done'' ''c2'' [2], MainRange ''multiplexedStream'' ''done'' [VInt 1]] {''c1''} 1)
      (Comm 4 1 ''c2'' (VInt 2))
      (fanin_demo [Exited, MultiplexSelect ''done'' ''c2'' ''multiplexedStream'' (VInt 2), FanInWait ''multiplexedStream'', Exited, Generator ''done'' ''c2'' [], MainRange ''multiplexedStream'' ''done'' [VInt 1]] {''c1''} 1)"
    by (simp add: demo_exec)
  have s7: "step (fanin_demo [Exited, MultiplexSelect ''done'' ''c2'' ''multiplexedStream'' (VInt 2), FanInWait ''multiplexedStream'', Exited, Generator ''done'' ''c2'' [], MainRange ''multiplexedStream'' ''done'' [VInt 1]] {''c1''} 1)
      (Comm 1 5 ''multiplexedStream'' (VInt 2))
      (fanin_demo [Exited, MultiplexRange ''done'' ''c2'' ''multiplexedStream'', FanInWait ''multiplexedStream'', Exited, Generator ''done'' ''c2'' [], MainRange ''multiplexedStream'' ''done'' [VInt 1, VInt 2]] {''c1''} 1)"
    by (simp add: demo_exec)
  have s8: "step (fanin_demo [Exited, MultiplexRange ''done'' ''c2'' ''multiplexedStream'', FanInWait ''multiplexedStream'', Exited, Generator ''done'' ''c2'' [], MainRange ''multiplexedStream'' ''done'' [VInt 1, VInt 2]] {''c1''} 1)
      (Closes 4 ''c2'')
      (fanin_demo [Exited, MultiplexRange ''done'' ''c2'' ''multiplexedStream'', FanInWait ''multiplexedStream'', Exited, Exited, MainRange ''multiplexedStream'' ''done'' [VInt 1, VInt 2]] {''c2'', ''c1''} 1)"
    by (simp add: demo_exec)
  have s9: "step (fanin_demo [Exited, MultiplexRange ''done'' ''c2'' ''multiplexedStream'', FanInWait ''multiplexedStream'', Exited, Exited, MainRange ''multiplexedStream'' ''done'' [VInt 1, VInt 2]] {''c2'', ''c1''} 1)
      (RecvClosed 1 ''c2'')
      (fanin_demo [Exited, MultiplexDone, FanInWait ''multiplexedStream'', Exited, Exited, MainRange ''multiplexedStream'' ''done'' [VInt 1, VInt 2]] {''c2'', ''c1''} 1)"
    by (simp add: demo_exec)
  have s10: "step (fanin_demo [Exited, MultiplexDone, FanInWait ''multiplexedStream'', Exited, Exited, MainRange ''multiplexedStream'' ''done'' [VInt 1, VInt 2]] {''c2'', ''c1''} 1)
      (WgDoneEv 1)
      (fanin_demo [Exited, Exited, FanInWait ''multiplexedStream'', Exited, Exited, MainRange ''multiplexedStream'' ''done'' [VInt 1, VInt 2]] {''c2'', ''c1''} 0)"
    by (simp add: demo_exec)
  have s11: "step (fanin_demo [Exited, Exited, FanInWait ''multiplexedStream'', Exited, Exited, MainRange ''multiplexedStream'' ''done'' [VInt 1, VInt 2]] {''c2'', ''c1''} 0)
      (WgWaitEv 2)
      (fanin_demo [Exited, Exited, FanInClose ''multiplexedStream'', Exited, Exited, MainRange ''multiplexedStream'' ''done'' [VInt 1, VInt 2]] {''c2'', ''c1''} 0)"
    by (simp add: demo_exec)
  have s12: "step (fanin_demo [Exited, Exited, FanInClose ''multiplexedStream'', Exited, Exited, MainRange ''multiplexedStream'' ''done'' [VInt 1, VInt 2]] {''c2'', ''c1''} 0)
      (Closes 2 ''multiplexedStream'')
      (fanin_demo [Exited, Exited, Exited, Exited, Exited, MainRange ''multiplexedStream'' ''done'' [VInt 1, VInt 2]] {''multiplexedStream'', ''c2'', ''c1''} 0)"
    by (simp add: demo_exec)
  from run_snoc [OF 0 s1] have r1: "run (fanin_demo [MultiplexRange ''done'' ''c1'' ''multiplexedStream'', MultiplexRange ''done'' ''c2'' ''multiplexedStream'', FanInWait ''multiplexedStream'', Generator ''done'' ''c1'' [1], Generator ''done'' ''c2'' [2], MainRange ''multiplexedStream'' ''done'' []] {} 2) [Comm 3 0 ''c1'' (VInt 1)] (fanin_demo [MultiplexSelect ''done'' ''c1'' ''multiplexedStream'' (VInt 1), MultiplexRange ''done'' ''c2'' ''multiplexedStream'', FanInWait ''multiplexedStream'', Generator ''done'' ''c1'' [], Generator ''done'' ''c2'' [2], MainRange ''multiplexedStream'' ''done'' []] {} 2)" by simp
  from run_snoc [OF r1 s2] have r2: "run (fanin_demo [MultiplexRange ''done'' ''c1'' ''multiplexedStream'', MultiplexRange ''done'' ''c2'' ''multiplexedStream'', FanInWait ''multiplexedStream'', Generator ''done'' ''c1'' [1], Generator ''done'' ''c2'' [2], MainRange ''multiplexedStream'' ''done'' []] {} 2) [Comm 3 0 ''c1'' (VInt 1), Comm 0 5 ''multiplexedStream'' (VInt 1)] (fanin_demo [MultiplexRange ''done'' ''c1'' ''multiplexedStream'', MultiplexRange ''done'' ''c2'' ''multiplexedStream'', FanInWait ''multiplexedStream'', Generator ''done'' ''c1'' [], Generator ''done'' ''c2'' [2], MainRange ''multiplexedStream'' ''done'' [VInt 1]] {} 2)" by simp
  from run_snoc [OF r2 s3] have r3: "run (fanin_demo [MultiplexRange ''done'' ''c1'' ''multiplexedStream'', MultiplexRange ''done'' ''c2'' ''multiplexedStream'', FanInWait ''multiplexedStream'', Generator ''done'' ''c1'' [1], Generator ''done'' ''c2'' [2], MainRange ''multiplexedStream'' ''done'' []] {} 2) [Comm 3 0 ''c1'' (VInt 1), Comm 0 5 ''multiplexedStream'' (VInt 1), Closes 3 ''c1''] (fanin_demo [MultiplexRange ''done'' ''c1'' ''multiplexedStream'', MultiplexRange ''done'' ''c2'' ''multiplexedStream'', FanInWait ''multiplexedStream'', Exited, Generator ''done'' ''c2'' [2], MainRange ''multiplexedStream'' ''done'' [VInt 1]] {''c1''} 2)" by simp
  from run_snoc [OF r3 s4] have r4: "run (fanin_demo [MultiplexRange ''done'' ''c1'' ''multiplexedStream'', MultiplexRange ''done'' ''c2'' ''multiplexedStream'', FanInWait ''multiplexedStream'', Generator ''done'' ''c1'' [1], Generator ''done'' ''c2'' [2], MainRange ''multiplexedStream'' ''done'' []] {} 2) [Comm 3 0 ''c1'' (VInt 1), Comm 0 5 ''multiplexedStream'' (VInt 1), Closes 3 ''c1'', RecvClosed 0 ''c1''] (fanin_demo [MultiplexDone, MultiplexRange ''done'' ''c2'' ''multiplexedStream'', FanInWait ''multiplexedStream'', Exited, Generator ''done'' ''c2'' [2], MainRange ''multiplexedStream'' ''done'' [VInt 1]] {''c1''} 2)" by simp
  from run_snoc [OF r4 s5] have r5: "run (fanin_demo [MultiplexRange ''done'' ''c1'' ''multiplexedStream'', MultiplexRange ''done'' ''c2'' ''multiplexedStream'', FanInWait ''multiplexedStream'', Generator ''done'' ''c1'' [1], Generator ''done'' ''c2'' [2], MainRange ''multiplexedStream'' ''done'' []] {} 2) [Comm 3 0 ''c1'' (VInt 1), Comm 0 5 ''multiplexedStream'' (VInt 1), Closes 3 ''c1'', RecvClosed 0 ''c1'', WgDoneEv 0] (fanin_demo [Exited, MultiplexRange ''done'' ''c2'' ''multiplexedStream'', FanInWait ''multiplexedStream'', Exited, Generator ''done'' ''c2'' [2], MainRange ''multiplexedStream'' ''done'' [VInt 1]] {''c1''} 1)" by simp
  from run_snoc [OF r5 s6] have r6: "run (fanin_demo [MultiplexRange ''done'' ''c1'' ''multiplexedStream'', MultiplexRange ''done'' ''c2'' ''multiplexedStream'', FanInWait ''multiplexedStream'', Generator ''done'' ''c1'' [1], Generator ''done'' ''c2'' [2], MainRange ''multiplexedStream'' ''done'' []] {} 2) [Comm 3 0 ''c1'' (VInt 1), Comm 0 5 ''multiplexedStream'' (VInt 1), Closes 3 ''c1'', RecvClosed 0 ''c1'', WgDoneEv 0, Comm 4 1 ''c2'' (VInt 2)] (fanin_demo [Exited, MultiplexSelect ''done'' ''c2'' ''multiplexedStream'' (VInt 2), FanInWait ''multiplexedStream'', Exited, Generator ''done'' ''c2'' [], MainRange ''multiplexedStream'' ''done'' [VInt 1]] {''c1''} 1)" by simp
  from run_snoc [OF r6 s7] have r7: "run (fanin_demo [MultiplexRange ''done'' ''c1'' ''multiplexedStream'', MultiplexRange ''done'' ''c2'' ''multiplexedStream'', FanInWait ''multiplexedStream'', Generator ''done'' ''c1'' [1], Generator ''done'' ''c2'' [2], MainRange ''multiplexedStream'' ''done'' []] {} 2) [Comm 3 0 ''c1'' (VInt 1), Comm 0 5 ''multiplexedStream'' (VInt 1), Closes 3 ''c1'', RecvClosed 0 ''c1'', WgDoneEv 0, Comm 4 1 ''c2'' (VInt 2), Comm 1 5 ''multiplexedStream'' (VInt 2)] (fanin_demo [Exited, MultiplexRange ''done'' ''c2'' ''multiplexedStream'', FanInWait ''multiplexedStream'', Exited, Generator ''done'' ''c2'' [], MainRange ''multiplexedStream'' ''done'' [VInt 1, VInt 2]] {''c1''} 1)" by simp
  from run_snoc [OF r7 s8] have r8: "run (fanin_demo [MultiplexRange ''done'' ''c1'' ''multiplexedStream'', MultiplexRange ''done'' ''c2'' ''multiplexedStream'', FanInWait ''multiplexedStream'', Generator ''done'' ''c1'' [1], Generator ''done'' ''c2'' [2], MainRange ''multiplexedStream'' ''done'' []] {} 2) [Comm 3 0 ''c1'' (VInt 1), Comm 0 5 ''multiplexedStream'' (VInt 1), Closes 3 ''c1'', RecvClosed 0 ''c1'', WgDoneEv 0, Comm 4 1 ''c2'' (VInt 2), Comm 1 5 ''multiplexedStream'' (VInt 2), Closes 4 ''c2''] (fanin_demo [Exited, MultiplexRange ''done'' ''c2'' ''multiplexedStream'', FanInWait ''multiplexedStream'', Exited, Exited, MainRange ''multiplexedStream'' ''done'' [VInt 1, VInt 2]] {''c2'', ''c1''} 1)" by simp
  from run_snoc [OF r8 s9] have r9: "run (fanin_demo [MultiplexRange ''done'' ''c1'' ''multiplexedStream'', MultiplexRange ''done'' ''c2'' ''multiplexedStream'', FanInWait ''multiplexedStream'', Generator ''done'' ''c1'' [1], Generator ''done'' ''c2'' [2], MainRange ''multiplexedStream'' ''done'' []] {} 2) [Comm 3 0 ''c1'' (VInt 1), Comm 0 5 ''multiplexedStream'' (VInt 1), Closes 3 ''c1'', RecvClosed 0 ''c1'', WgDoneEv 0, Comm 4 1 ''c2'' (VInt 2), Comm 1 5 ''multiplexedStream'' (VInt 2), Closes 4 ''c2'', RecvClosed 1 ''c2''] (fanin_demo [Exited, MultiplexDone, FanInWait ''multiplexedStream'', Exited, Exited, MainRange ''multiplexedStream'' ''done'' [VInt 1, VInt 2]] {''c2'', ''c1''} 1)" by simp
  from run_snoc [OF r9 s10] have r10: "run (fanin_demo [MultiplexRange ''done'' ''c1'' ''multiplexedStream'', MultiplexRange ''done'' ''c2'' ''multiplexedStream'', FanInWait ''multiplexedStream'', Generator ''done'' ''c1'' [1], Generator ''done'' ''c2'' [2], MainRange ''multiplexedStream'' ''done'' []] {} 2) [Comm 3 0 ''c1'' (VInt 1), Comm 0 5 ''multiplexedStream'' (VInt 1), Closes 3 ''c1'', RecvClosed 0 ''c1'', WgDoneEv 0, Comm 4 1 ''c2'' (VInt 2), Comm 1 5 ''multiplexedStream'' (VInt 2), Closes 4 ''c2'', RecvClosed 1 ''c2'', WgDoneEv 1] (fanin_demo [Exited, Exited, FanInWait ''multiplexedStream'', Exited, Exited, MainRange ''multiplexedStream'' ''done'' [VInt 1, VInt 2]] {''c2'', ''c1''} 0)" by simp
  from run_snoc [OF r10 s11] have r11: "run (fanin_demo [MultiplexRange ''done'' ''c1'' ''multiplexedStream'', MultiplexRange ''done'' ''c2'' ''multiplexedStream'', FanInWait ''multiplexedStream'', Generator ''done'' ''c1'' [1], Generator ''done'' ''c2'' [2], MainRange ''multiplexedStream'' ''done'' []] {} 2) [Comm 3 0 ''c1'' (VInt 1), Comm 0 5 ''multiplexedStream'' (VInt 1), Closes 3 ''c1'', RecvClosed 0 ''c1'', WgDoneEv 0, Comm 4 1 ''c2'' (VInt 2), Comm 1 5 ''multiplexedStream'' (VInt 2), Closes 4 ''c2'', RecvClosed 1 ''c2'', WgDoneEv 1, WgWaitEv 2] (fanin_demo [Exited, Exited, FanInClose ''multiplexedStream'', Exited, Exited, MainRange ''multiplexedStream'' ''done'' [VInt 1, VInt 2]] {''c2'', ''c1''} 0)" by simp
  from run_snoc [OF r11 s12] have r12: "run (fanin_demo [MultiplexRange ''done'' ''c1'' ''multiplexedStream'', MultiplexRange ''done'' ''c2'' ''multiplexedStream'', FanInWait ''multiplexedStream'', Generator ''done'' ''c1'' [1], Generator ''done'' ''c2'' [2], MainRange ''multiplexedStream'' ''done'' []] {} 2) [Comm 3 0 ''c1'' (VInt 1), Comm 0 5 ''multiplexedStream'' (VInt 1), Closes 3 ''c1'', RecvClosed 0 ''c1'', WgDoneEv 0, Comm 4 1 ''c2'' (VInt 2), Comm 1 5 ''multiplexedStream'' (VInt 2), Closes 4 ''c2'', RecvClosed 1 ''c2'', WgDoneEv 1, WgWaitEv 2, Closes 2 ''multiplexedStream''] (fanin_demo [Exited, Exited, Exited, Exited, Exited, MainRange ''multiplexedStream'' ''done'' [VInt 1, VInt 2]] {''multiplexedStream'', ''c2'', ''c1''} 0)" by simp
  from r12 show ?thesis .
qed

lemma fanin_cancelled_run:
  "run (fanin_demo [MultiplexRange ''done'' ''c'' ''multiplexedStream'', FanInWait ''multiplexedStream'', Generator ''done'' ''c'' [1, 2, 3], TakeLoop ''done'' ''multiplexedStream'' ''takeStream'' 1 0, MainRange ''takeStream'' ''done'' []] {} 1)
     [Comm 2 0 ''c'' (VInt 1), Comm 0 3 ''multiplexedStream'' (VInt 1), Comm 3 4 ''takeStream'' (VInt 1), Closes 3 ''takeStream'', RecvClosed 4 ''takeStream'', Closes 4 ''done'', Comm 2 0 ''c'' (VInt 2), RecvClosed 0 ''done'', WgDoneEv 0, WgWaitEv 1, Closes 1 ''multiplexedStream'']
     (fanin_demo [Exited, Exited, Generator ''done'' ''c'' [3], Exited, MainExited [VInt 1]] {''multiplexedStream'', ''done'', ''takeStream''} 0)"
proof -
  have 0: "run (fanin_demo [MultiplexRange ''done'' ''c'' ''multiplexedStream'', FanInWait ''multiplexedStream'', Generator ''done'' ''c'' [1, 2, 3], TakeLoop ''done'' ''multiplexedStream'' ''takeStream'' 1 0, MainRange ''takeStream'' ''done'' []] {} 1) [] (fanin_demo [MultiplexRange ''done'' ''c'' ''multiplexedStream'', FanInWait ''multiplexedStream'', Generator ''done'' ''c'' [1, 2, 3], TakeLoop ''done'' ''multiplexedStream'' ''takeStream'' 1 0, MainRange ''takeStream'' ''done'' []] {} 1)" by (rule run_nil)
  have s1: "step (fanin_demo [MultiplexRange ''done'' ''c'' ''multiplexedStream'', FanInWait ''multiplexedStream'', Generator ''done'' ''c'' [1, 2, 3], TakeLoop ''done'' ''multiplexedStream'' ''takeStream'' 1 0, MainRange ''takeStream'' ''done'' []] {} 1)
      (Comm 2 0 ''c'' (VInt 1))
      (fanin_demo [MultiplexSelect ''done'' ''c'' ''multiplexedStream'' (VInt 1), FanInWait ''multiplexedStream'', Generator ''done'' ''c'' [2, 3], TakeLoop ''done'' ''multiplexedStream'' ''takeStream'' 1 0, MainRange ''takeStream'' ''done'' []] {} 1)"
    by (simp add: demo_exec)
  have s2: "step (fanin_demo [MultiplexSelect ''done'' ''c'' ''multiplexedStream'' (VInt 1), FanInWait ''multiplexedStream'', Generator ''done'' ''c'' [2, 3], TakeLoop ''done'' ''multiplexedStream'' ''takeStream'' 1 0, MainRange ''takeStream'' ''done'' []] {} 1)
      (Comm 0 3 ''multiplexedStream'' (VInt 1))
      (fanin_demo [MultiplexRange ''done'' ''c'' ''multiplexedStream'', FanInWait ''multiplexedStream'', Generator ''done'' ''c'' [2, 3], TakeSelect ''done'' ''multiplexedStream'' ''takeStream'' 1 0 (VInt 1), MainRange ''takeStream'' ''done'' []] {} 1)"
    by (simp add: demo_exec)
  have s3: "step (fanin_demo [MultiplexRange ''done'' ''c'' ''multiplexedStream'', FanInWait ''multiplexedStream'', Generator ''done'' ''c'' [2, 3], TakeSelect ''done'' ''multiplexedStream'' ''takeStream'' 1 0 (VInt 1), MainRange ''takeStream'' ''done'' []] {} 1)
      (Comm 3 4 ''takeStream'' (VInt 1))
      (fanin_demo [MultiplexRange ''done'' ''c'' ''multiplexedStream'', FanInWait ''multiplexedStream'', Generator ''done'' ''c'' [2, 3], TakeLoop ''done'' ''multiplexedStream'' ''takeStream'' 1 1, MainRange ''takeStream'' ''done'' [VInt 1]] {} 1)"
    by (simp add: demo_exec)
  have s4: "step (fanin_demo [MultiplexRange ''done'' ''c'' ''multiplexedStream'', FanInWait ''multiplexedStream'', Generator ''done'' ''c'' [2, 3], TakeLoop ''done'' ''multiplexedStream'' ''takeStream'' 1 1, MainRange ''takeStream'' ''done'' [VInt 1]] {} 1)
      (Closes 3 ''takeStream'')
      (fanin_demo [MultiplexRange ''done'' ''c'' ''multiplexedStream'', FanInWait ''multiplexedStream'', Generator ''done'' ''c'' [2, 3], Exited, MainRange ''takeStream'' ''done'' [VInt 1]] {''takeStream''} 1)"
    by (simp add: demo_exec)
  have s5: "step (fanin_demo [MultiplexRange ''done'' ''c'' ''multiplexedStream'', FanInWait ''multiplexedStream'', Generator ''done'' ''c'' [2, 3], Exited, MainRange ''takeStream'' ''done'' [VInt 1]] {''takeStream''} 1)
      (RecvClosed 4 ''takeStream'')
      (fanin_demo [MultiplexRange ''done'' ''c'' ''multiplexedStream'', FanInWait ''multiplexedStream'', Generator ''done'' ''c'' [2, 3], Exited, MainReturn ''done'' [VInt 1]] {''takeStream''} 1)"
    by (simp add: demo_exec)
  have s6: "step (fanin_demo [MultiplexRange ''done'' ''c'' ''multiplexedStream'', FanInWait ''multiplexedStream'', Generator ''done'' ''c'' [2, 3], Exited, MainReturn ''done'' [VInt 1]] {''takeStream''} 1)
      (Closes 4 ''done'')
      (fanin_demo [MultiplexRange ''done'' ''c'' ''multiplexedStream'', FanInWait ''multiplexedStream'', Generator ''done'' ''c'' [2, 3], Exited, MainExited [VInt 1]] {''done'', ''takeStream''} 1)"
    by (simp add: demo_exec)
  have s7: "step (fanin_demo [MultiplexRange ''done'' ''c'' ''multiplexedStream'', FanInWait ''multiplexedStream'', Generator ''done'' ''c'' [2, 3], Exited, MainExited [VInt 1]] {''done'', ''takeStream''} 1)
      (Comm 2 0 ''c'' (VInt 2))
      (fanin_demo [MultiplexSelect ''done'' ''c'' ''multiplexedStream'' (VInt 2), FanInWait ''multiplexedStream'', Generator ''done'' ''c'' [3], Exited, MainExited [VInt 1]] {''done'', ''takeStream''} 1)"
    by (simp add: demo_exec)
  have s8: "step (fanin_demo [MultiplexSelect ''done'' ''c'' ''multiplexedStream'' (VInt 2), FanInWait ''multiplexedStream'', Generator ''done'' ''c'' [3], Exited, MainExited [VInt 1]] {''done'', ''takeStream''} 1)
      (RecvClosed 0 ''done'')
      (fanin_demo [MultiplexDone, FanInWait ''multiplexedStream'', Generator ''done'' ''c'' [3], Exited, MainExited [VInt 1]] {''done'', ''takeStream''} 1)"
    by (simp add: demo_exec)
  have s9: "step (fanin_demo [MultiplexDone, FanInWait ''multiplexedStream'', Generator ''done'' ''c'' [3], Exited, MainExited [VInt 1]] {''done'', ''takeStream''} 1)
      (WgDoneEv 0)
      (fanin_demo [Exited, FanInWait ''multiplexedStream'', Generator ''done'' ''c'' [3], Exited, MainExited [VInt 1]] {''done'', ''takeStream''} 0)"
    by (simp add: demo_exec)
  have s10: "step (fanin_demo [Exited, FanInWait ''multiplexedStream'', Generator ''done'' ''c'' [3], Exited, MainExited [VInt 1]] {''done'', ''takeStream''} 0)
      (WgWaitEv 1)
      (fanin_demo [Exited, FanInClose ''multiplexedStream'', Generator ''done'' ''c'' [3], Exited, MainExited [VInt 1]] {''done'', ''takeStream''} 0)"
    by (simp add: demo_exec)
  have s11: "step (fanin_demo [Exited, FanInClose ''multiplexedStream'', Generator ''done'' ''c'' [3], Exited, MainExited [VInt 1]] {''done'', ''takeStream''} 0)
      (Closes 1 ''multiplexedStream'')
      (fanin_demo [Exited, Exited, Generator ''done'' ''c'' [3], Exited, MainExited [VInt 1]] {''multiplexedStream'', ''done'', ''takeStream''} 0)"
    by (simp add: demo_exec)
  from run_snoc [OF 0 s1] have r1: "run (fanin_demo [MultiplexRange ''done'' ''c'' ''multiplexedStream'', FanInWait ''multiplexedStream'', Generator ''done'' ''c'' [1, 2, 3], TakeLoop ''done'' ''multiplexedStream'' ''takeStream'' 1 0, MainRange ''takeStream'' ''done'' []] {} 1) [Comm 2 0 ''c'' (VInt 1)] (fanin_demo [MultiplexSelect ''done'' ''c'' ''multiplexedStream'' (VInt 1), FanInWait ''multiplexedStream'', Generator ''done'' ''c'' [2, 3], TakeLoop ''done'' ''multiplexedStream'' ''takeStream'' 1 0, MainRange ''takeStream'' ''done'' []] {} 1)" by simp
  from run_snoc [OF r1 s2] have r2: "run (fanin_demo [MultiplexRange ''done'' ''c'' ''multiplexedStream'', FanInWait ''multiplexedStream'', Generator ''done'' ''c'' [1, 2, 3], TakeLoop ''done'' ''multiplexedStream'' ''takeStream'' 1 0, MainRange ''takeStream'' ''done'' []] {} 1) [Comm 2 0 ''c'' (VInt 1), Comm 0 3 ''multiplexedStream'' (VInt 1)] (fanin_demo [MultiplexRange ''done'' ''c'' ''multiplexedStream'', FanInWait ''multiplexedStream'', Generator ''done'' ''c'' [2, 3], TakeSelect ''done'' ''multiplexedStream'' ''takeStream'' 1 0 (VInt 1), MainRange ''takeStream'' ''done'' []] {} 1)" by simp
  from run_snoc [OF r2 s3] have r3: "run (fanin_demo [MultiplexRange ''done'' ''c'' ''multiplexedStream'', FanInWait ''multiplexedStream'', Generator ''done'' ''c'' [1, 2, 3], TakeLoop ''done'' ''multiplexedStream'' ''takeStream'' 1 0, MainRange ''takeStream'' ''done'' []] {} 1) [Comm 2 0 ''c'' (VInt 1), Comm 0 3 ''multiplexedStream'' (VInt 1), Comm 3 4 ''takeStream'' (VInt 1)] (fanin_demo [MultiplexRange ''done'' ''c'' ''multiplexedStream'', FanInWait ''multiplexedStream'', Generator ''done'' ''c'' [2, 3], TakeLoop ''done'' ''multiplexedStream'' ''takeStream'' 1 1, MainRange ''takeStream'' ''done'' [VInt 1]] {} 1)" by simp
  from run_snoc [OF r3 s4] have r4: "run (fanin_demo [MultiplexRange ''done'' ''c'' ''multiplexedStream'', FanInWait ''multiplexedStream'', Generator ''done'' ''c'' [1, 2, 3], TakeLoop ''done'' ''multiplexedStream'' ''takeStream'' 1 0, MainRange ''takeStream'' ''done'' []] {} 1) [Comm 2 0 ''c'' (VInt 1), Comm 0 3 ''multiplexedStream'' (VInt 1), Comm 3 4 ''takeStream'' (VInt 1), Closes 3 ''takeStream''] (fanin_demo [MultiplexRange ''done'' ''c'' ''multiplexedStream'', FanInWait ''multiplexedStream'', Generator ''done'' ''c'' [2, 3], Exited, MainRange ''takeStream'' ''done'' [VInt 1]] {''takeStream''} 1)" by simp
  from run_snoc [OF r4 s5] have r5: "run (fanin_demo [MultiplexRange ''done'' ''c'' ''multiplexedStream'', FanInWait ''multiplexedStream'', Generator ''done'' ''c'' [1, 2, 3], TakeLoop ''done'' ''multiplexedStream'' ''takeStream'' 1 0, MainRange ''takeStream'' ''done'' []] {} 1) [Comm 2 0 ''c'' (VInt 1), Comm 0 3 ''multiplexedStream'' (VInt 1), Comm 3 4 ''takeStream'' (VInt 1), Closes 3 ''takeStream'', RecvClosed 4 ''takeStream''] (fanin_demo [MultiplexRange ''done'' ''c'' ''multiplexedStream'', FanInWait ''multiplexedStream'', Generator ''done'' ''c'' [2, 3], Exited, MainReturn ''done'' [VInt 1]] {''takeStream''} 1)" by simp
  from run_snoc [OF r5 s6] have r6: "run (fanin_demo [MultiplexRange ''done'' ''c'' ''multiplexedStream'', FanInWait ''multiplexedStream'', Generator ''done'' ''c'' [1, 2, 3], TakeLoop ''done'' ''multiplexedStream'' ''takeStream'' 1 0, MainRange ''takeStream'' ''done'' []] {} 1) [Comm 2 0 ''c'' (VInt 1), Comm 0 3 ''multiplexedStream'' (VInt 1), Comm 3 4 ''takeStream'' (VInt 1), Closes 3 ''takeStream'', RecvClosed 4 ''takeStream'', Closes 4 ''done''] (fanin_demo [MultiplexRange ''done'' ''c'' ''multiplexedStream'', FanInWait ''multiplexedStream'', Generator ''done'' ''c'' [2, 3], Exited, MainExited [VInt 1]] {''done'', ''takeStream''} 1)" by simp
  from run_snoc [OF r6 s7] have r7: "run (fanin_demo [MultiplexRange ''done'' ''c'' ''multiplexedStream'', FanInWait ''multiplexedStream'', Generator ''done'' ''c'' [1, 2, 3], TakeLoop ''done'' ''multiplexedStream'' ''takeStream'' 1 0, MainRange ''takeStream'' ''done'' []] {} 1) [Comm 2 0 ''c'' (VInt 1), Comm 0 3 ''multiplexedStream'' (VInt 1), Comm 3 4 ''takeStream'' (VInt 1), Closes 3 ''takeStream'', RecvClosed 4 ''takeStream'', Closes 4 ''done'', Comm 2 0 ''c'' (VInt 2)] (fanin_demo [MultiplexSelect ''done'' ''c'' ''multiplexedStream'' (VInt 2), FanInWait ''multiplexedStream'', Generator ''done'' ''c'' [3], Exited, MainExited [VInt 1]] {''done'', ''takeStream''} 1)" by simp
  from run_snoc [OF r7 s8] have r8: "run (fanin_demo [MultiplexRange ''done'' ''c'' ''multiplexedStream'', FanInWait ''multiplexedStream'', Generator ''done'' ''c'' [1, 2, 3], TakeLoop ''done'' ''multiplexedStream'' ''takeStream'' 1 0, MainRange ''takeStream'' ''done'' []] {} 1) [Comm 2 0 ''c'' (VInt 1), Comm 0 3 ''multiplexedStream'' (VInt 1), Comm 3 4 ''takeStream'' (VInt 1), Closes 3 ''takeStream'', RecvClosed 4 ''takeStream'', Closes 4 ''done'', Comm 2 0 ''c'' (VInt 2), RecvClosed 0 ''done''] (fanin_demo [MultiplexDone, FanInWait ''multiplexedStream'', Generator ''done'' ''c'' [3], Exited, MainExited [VInt 1]] {''done'', ''takeStream''} 1)" by simp
  from run_snoc [OF r8 s9] have r9: "run (fanin_demo [MultiplexRange ''done'' ''c'' ''multiplexedStream'', FanInWait ''multiplexedStream'', Generator ''done'' ''c'' [1, 2, 3], TakeLoop ''done'' ''multiplexedStream'' ''takeStream'' 1 0, MainRange ''takeStream'' ''done'' []] {} 1) [Comm 2 0 ''c'' (VInt 1), Comm 0 3 ''multiplexedStream'' (VInt 1), Comm 3 4 ''takeStream'' (VInt 1), Closes 3 ''takeStream'', RecvClosed 4 ''takeStream'', Closes 4 ''done'', Comm 2 0 ''c'' (VInt 2), RecvClosed 0 ''done'', WgDoneEv 0] (fanin_demo [Exited, FanInWait ''multiplexedStream'', Generator ''done'' ''c'' [3], Exited, MainExited [VInt 1]] {''done'', ''takeStream''} 0)" by simp
  from run_snoc [OF r9 s10] have r10: "run (fanin_demo [MultiplexRange ''done'' ''c'' ''multiplexedStream'', FanInWait ''multiplexedStream'', Generator ''done'' ''c'' [1, 2, 3], TakeLoop ''done'' ''multiplexedStream'' ''takeStream'' 1 0, MainRange ''takeStream'' ''done'' []] {} 1) [Comm 2 0 ''c'' (VInt 1), Comm 0 3 ''multiplexedStream'' (VInt 1), Comm 3 4 ''takeStream'' (VInt 1), Closes 3 ''takeStream'', RecvClosed 4 ''takeStream'', Closes 4 ''done'', Comm 2 0 ''c'' (VInt 2), RecvClosed 0 ''done'', WgDoneEv 0, WgWaitEv 1] (fanin_demo [Exited, FanInClose ''multiplexedStream'', Generator ''done'' ''c'' [3], Exited, MainExited [VInt 1]] {''done'', ''takeStream''} 0)" by simp
  from run_snoc [OF r10 s11] have r11: "run (fanin_demo [MultiplexRange ''done'' ''c'' ''multiplexedStream'', FanInWait ''multiplexedStream'', Generator ''done'' ''c'' [1, 2, 3], TakeLoop ''done'' ''multiplexedStream'' ''takeStream'' 1 0, MainRange ''takeStream'' ''done'' []] {} 1) [Comm 2 0 ''c'' (VInt 1), Comm 0 3 ''multiplexedStream'' (VInt 1), Comm 3 4 ''takeStream'' (VInt 1), Closes 3 ''takeStream'', RecvClosed 4 ''takeStream'', Closes 4 ''done'', Comm 2 0 ''c'' (VInt 2), RecvClosed 0 ''done'', WgDoneEv 0, WgWaitEv 1, Closes 1 ''multiplexedStream''] (fanin_demo [Exited, Exited, Generator ''done'' ''c'' [3], Exited, MainExited [VInt 1]] {''multiplexedStream'', ''done'', ''takeStream''} 0)" by simp
  from r11 show ?thesis .
qed

section \<open>Facts about fan-out\<close>

lemma sends_on_send: "Send c v g' \<in> set (offers g) \<Longrightarrow> sends_on g = Some c"
  by (cases g) (auto split: list.splits if_splits)

lemma sends_on_after_send:
  "Send c' v g' \<in> set (offers g) \<Longrightarrow> sends_on g \<noteq> Some c \<Longrightarrow> sends_on g' \<noteq> Some c"
  by (cases g) (auto split: list.splits if_splits)

lemma sends_on_after_recv:
  "Recv c' k \<in> set (offers g) \<Longrightarrow> sends_on g \<noteq> Some c \<Longrightarrow> sends_on (k r) \<noteq> Some c"
  by (cases g) (auto split: list.splits if_splits option.splits val.splits)

lemma sends_on_after_close:
  "Close c' g' \<in> set (offers g) \<Longrightarrow> sends_on g' \<noteq> Some c"
  by (cases g) (auto split: list.splits if_splits)

lemma sends_on_after_wg:
  "WgDone g' \<in> set (offers g) \<or> WgWait g' \<in> set (offers g) \<Longrightarrow> sends_on g' \<noteq> Some c"
  by (cases g) (auto split: list.splits if_splits)

lemma generator_send:
  assumes "g = Generator d c r \<or> g = Closing c \<or> g = Exited"
    and "Send c' v g' \<in> set (offers g)"
  shows "c' = c \<and> (\<exists>x r'. r = x # r' \<and> v = VInt x \<and> g' = Generator d c r') \<and>
         g = Generator d c r"
  using assms by (auto split: list.splits)

lemma generator_recv:
  assumes "g = Generator d c r \<or> g = Closing c \<or> g = Exited"
    and "Recv c' k \<in> set (offers g)"
  shows "k r' = Closing c"
  using assms by (auto split: list.splits)

lemma generator_close:
  assumes "g = Generator d c r \<or> g = Closing c \<or> g = Exited"
    and "Close c' g' \<in> set (offers g)"
  shows "g' = Exited"
  using assms by (auto split: list.splits)

lemma generator_wg:
  assumes "g = Generator d c r \<or> g = Closing c \<or> g = Exited"
  shows "WgDone g' \<notin> set (offers g) \<and> WgWait g' \<notin> set (offers g)"
  using assms by (auto split: list.splits)

lemma deliveries_snoc: "deliveries c (es @ [e]) = deliveries c es @ delivery c e"
  by (simp add: deliveries_def)

lemma fanout_inv_step:
  assumes inv: "fanout_inv d c xs s (length (deliveries c es))"
    and vals: "map snd (deliveries c es) = map VInt (take (length (deliveries c es)) xs)"
    and st: "step s e s'"
  shows "fanout_inv d c xs s' (length (deliveries c (es @ [e]))) \<and>
         map snd (deliveries c (es @ [e])) = map VInt (take (length (deliveries c (es @ [e]))) xs)"
proof -
  let ?k = "length (deliveries c es)"
  let ?ps = "procs s"
  from inv have len: "0 < length ?ps" and k: "?k \<le> length xs"
    and gen: "?ps ! 0 = Generator d c (drop ?k xs) \<or> ?ps ! 0 = Closing c \<or> ?ps ! 0 = Exited"
    and others: "\<And>i. 0 < i \<Longrightarrow> i < length ?ps \<Longrightarrow> sends_on (?ps ! i) \<noteq> Some c"
    unfolding fanout_inv_def by auto
  have keep: "fanout_inv d c xs s' ?k"
    if "length (procs s') = length ?ps"
      "procs s' ! 0 = ?ps ! 0 \<or> procs s' ! 0 = Closing c \<or> procs s' ! 0 = Exited"
      "\<And>i. 0 < i \<Longrightarrow> i < length ?ps \<Longrightarrow> sends_on (procs s' ! i) \<noteq> Some c"
    using that len k gen unfolding fanout_inv_def by auto
  from st show ?thesis
  proof (cases rule: stepE)
    case (recv_closed i c' kk)
    have "fanout_inv d c xs s' ?k"
    proof (rule keep)
      show "length (procs s') = length ?ps" using recv_closed(6) by simp
      show "procs s' ! 0 = ?ps ! 0 \<or> procs s' ! 0 = Closing c \<or> procs s' ! 0 = Exited"
        using recv_closed(2,3,6) generator_recv [OF gen, of c' kk None] by (cases "i = 0") auto
      show "sends_on (procs s' ! i') \<noteq> Some c" if "0 < i'" "i' < length ?ps" for i'
        using that others [OF that] recv_closed(2,6) sends_on_after_recv [OF recv_closed(3), of c None]
        by (cases "i' = i") auto
    qed
    with vals recv_closed(5) show ?thesis by (simp add: deliveries_snoc)
  next
    case (comm i j c' kk v g')
    have ps': "procs s' = ?ps[i := kk (Some v), j := g']" using comm(9) by simp
    have nth: "procs s' ! k' = (if k' = j then g' else if k' = i then kk (Some v) else ?ps ! k')"
      if "k' < length ?ps" for k'
      using that comm(2,3) unfolding ps' by (simp add: nth_list_update)
    have oth: "sends_on (procs s' ! i') \<noteq> Some c" if "0 < i'" "i' < length ?ps" for i'
      using that others [OF that] sends_on_after_recv [OF comm(5), of c "Some v"]
        sends_on_after_send [OF comm(6), of c]
      by (auto simp: nth)
    show ?thesis
    proof (cases "c' = c")
      case True
      from sends_on_send [OF comm(6)] True others [of j] comm(3) have j0: "j = 0" by auto
      with generator_send [OF gen, of c' v g'] comm(6) obtain x r' where
        x: "drop ?k xs = x # r'" "v = VInt x" "g' = Generator d c r'"
        by auto
      from x(1) have klt: "?k < length xs" by (cases "?k < length xs") auto
      with x(1) have xk: "x = xs ! ?k" "r' = drop (Suc ?k) xs"
        by (simp_all add: Cons_nth_drop_Suc [symmetric])
      have d': "deliveries c (es @ [e]) = deliveries c es @ [(i, v)]"
        using comm(8) True by (simp add: deliveries_snoc)
      have "fanout_inv d c xs s' (Suc ?k)"
        unfolding fanout_inv_def using len klt j0 x(3) xk comm(2,4) oth
        by (auto simp: nth ps')
      moreover have "map snd (deliveries c (es @ [e])) = map VInt (take (Suc ?k) xs)"
        using vals klt x(2) xk by (simp add: d' take_Suc_conv_app_nth)
      ultimately show ?thesis by (simp add: d')
    next
      case False
      have j0: "j \<noteq> 0"
      proof
        assume "j = 0"
        with generator_send [OF gen, of c' v g'] comm(6) False show False by auto
      qed
      have "fanout_inv d c xs s' ?k"
      proof (rule keep)
        show "length (procs s') = length ?ps" by (simp add: ps')
        show "procs s' ! 0 = ?ps ! 0 \<or> procs s' ! 0 = Closing c \<or> procs s' ! 0 = Exited"
          using len j0 comm(5) generator_recv [OF gen, of c' kk "Some v"]
          by (cases "i = 0") (auto simp: nth)
        show "sends_on (procs s' ! i') \<noteq> Some c" if "0 < i'" "i' < length ?ps" for i'
          using oth [OF that] .
      qed
      with vals comm(8) False show ?thesis by (simp add: deliveries_snoc)
    qed
  next
    case (closes i c' g')
    have "fanout_inv d c xs s' ?k"
    proof (rule keep)
      show "length (procs s') = length ?ps" using closes(6) by simp
      show "procs s' ! 0 = ?ps ! 0 \<or> procs s' ! 0 = Closing c \<or> procs s' ! 0 = Exited"
        using closes(2,3,6) generator_close [OF gen, of c' g'] by (cases "i = 0") auto
      show "sends_on (procs s' ! i') \<noteq> Some c" if "0 < i'" "i' < length ?ps" for i'
        using that others [OF that] closes(2,6) sends_on_after_close [OF closes(3), of c]
        by (cases "i' = i") auto
    qed
    with vals closes(5) show ?thesis by (simp add: deliveries_snoc)
  next
    case (panics i)
    then have eq: "procs s' = procs s" by simp
    from inv have "fanout_inv d c xs s' ?k" unfolding fanout_inv_def eq .
    with vals panics(3) show ?thesis by (simp add: deliveries_snoc)
  next
    case (wg_done i g')
    have i0: "i \<noteq> 0"
    proof
      assume "i = 0"
      with generator_wg [OF gen, of g'] wg_done(3) show False by simp
    qed
    have "fanout_inv d c xs s' ?k"
    proof (rule keep)
      show "length (procs s') = length ?ps" using wg_done(6) by simp
      show "procs s' ! 0 = ?ps ! 0 \<or> procs s' ! 0 = Closing c \<or> procs s' ! 0 = Exited"
        using wg_done(6) i0 by simp
      show "sends_on (procs s' ! i') \<noteq> Some c" if "0 < i'" "i' < length ?ps" for i'
        using that others [OF that] wg_done(2,3,6) sends_on_after_wg [of g' "?ps ! i" c]
        by (cases "i' = i") auto
    qed
    with vals wg_done(5) show ?thesis by (simp add: deliveries_snoc)
  next
    case (wg_wait i g')
    have i0: "i \<noteq> 0"
    proof
      assume "i = 0"
      with generator_wg [OF gen, of g'] wg_wait(3) show False by simp
    qed
    have "fanout_inv d c xs s' ?k"
    proof (rule keep)
      show "length (procs s') = length ?ps" using wg_wait(6) by simp
      show "procs s' ! 0 = ?ps ! 0 \<or> procs s' ! 0 = Closing c \<or> procs s' ! 0 = Exited"
        using wg_wait(6) i0 by simp
      show "sends_on (procs s' ! i') \<noteq> Some c" if "0 < i'" "i' < length ?ps" for i'
        using that others [OF that] wg_wait(2,3,6) sends_on_after_wg [of g' "?ps ! i" c]
        by (cases "i' = i") auto
    qed
    with vals wg_wait(5) show ?thesis by (simp add: deliveries_snoc)
  qed
qed


lemma fanout_inv_run:
  assumes "run s0 es s" and "fanout_inv d c xs s0 0"
  shows "fanout_inv d c xs s (length (deliveries c es)) \<and>
         map snd (deliveries c es) = map VInt (take (length (deliveries c es)) xs)"
  using assms
proof (induction rule: run.induct)
  case (run_nil s)
  then show ?case by (simp add: deliveries_def)
next
  case (run_snoc s es s' e s'')
  then show ?case using fanout_inv_step by blast
qed

lemma fanout_inv_init:
  assumes "procs s0 = Generator d c xs # fanout d c finders @ env"
    and "c \<notin> set finders" and "\<forall>g \<in> set env. sends_on g \<noteq> Some c"
  shows "fanout_inv d c xs s0 0"
proof -
  have "sends_on g \<noteq> Some c" if "g \<in> set (fanout d c finders @ env)" for g
    using that assms(2,3) by (auto simp: fanout_def)
  then have "sends_on (procs s0 ! i) \<noteq> Some c" if "0 < i" "i < length (procs s0)" for i
  proof -
    from that obtain i' where i': "i = Suc i'" "i' < length (fanout d c finders @ env)"
      by (cases i) (auto simp: assms(1))
    then have "(fanout d c finders @ env) ! i' \<in> set (fanout d c finders @ env)"
      by (intro nth_mem)
    with \<open>\<And>g. g \<in> set (fanout d c finders @ env) \<Longrightarrow> sends_on g \<noteq> Some c\<close> i'
    show ?thesis by (simp add: assms(1))
  qed
  then show ?thesis by (simp add: fanout_inv_def assms(1))
qed

lemma comm_frame:
  assumes "step t (Comm j i c v) t'" and "k \<noteq> i" and "k \<noteq> j"
  shows "procs t' ! k = procs t ! k"
  using assms(1) by (cases rule: stepE) (use assms(2,3) in auto)

lemma fanout_any_worker:
  assumes "procs s0 = Generator d c (x # rest) # fanout d c finders @ env"
    and "\<not> panicked s0" and "c \<notin> closed s0" and "1 \<le> i" and "i \<le> length finders"
  shows "\<exists>s'. step s0 (Comm 0 i c (VInt x)) s'"
proof -
  from assms(4,5) obtain i' where i': "i = Suc i'" "i' < length finders" by (cases i) auto
  then have w: "procs s0 ! i = PrimeFinderRange d c (finders ! i')"
    by (simp add: assms(1) fanout_def nth_append)
  have "step s0 (Comm 0 i c (VInt x))
     (s0\<lparr>procs := (procs s0)[i := (\<lambda>r. case r of
         None \<Rightarrow> Closing (finders ! i')
       | Some (VInt n) \<Rightarrow>
           (case primeFinder_item n of
              None \<Rightarrow> PrimeFinderRange d c (finders ! i')
            | Some integer \<Rightarrow> PrimeFinderSelect d c (finders ! i') integer)
       | Some VNil \<Rightarrow> IllTyped) (Some (VInt x)), 0 := Generator d c rest]\<rparr>)"
  proof (intro step_commI)
    show "Recv c (\<lambda>r. case r of
         None \<Rightarrow> Closing (finders ! i')
       | Some (VInt n) \<Rightarrow>
           (case primeFinder_item n of
              None \<Rightarrow> PrimeFinderRange d c (finders ! i')
            | Some integer \<Rightarrow> PrimeFinderSelect d c (finders ! i') integer)
       | Some VNil \<Rightarrow> IllTyped) \<in> set (offers (procs s0 ! i))"
      unfolding w by simp
    show "Send c (VInt x) (Generator d c rest) \<in> set (offers (procs s0 ! 0))"
      by (simp add: assms(1))
  qed (use assms(2,3) i' in \<open>simp_all add: assms(1) fanout_def\<close>)
  then show ?thesis by blast
qed

lemma fanout_demo_step:
  "step fanout_demo (Comm 0 2 ''intStream'' (VInt 2))
     (st [Generator ''done'' ''intStream'' [3],
          PrimeFinderRange ''done'' ''intStream'' ''primeStream1'',
          PrimeFinderSelect ''done'' ''intStream'' ''primeStream2'' 1] {})"
  by (simp add: fanout_demo_def fanout_def sym_exec primeFinder_eval)


section \<open>Facts about the prime finder_streams between a generator and fanIn\<close>









































text \<open>While \<open>main\<close> has not returned, some goroutine can move.\<close>

lemma run_first_step:
  assumes "run s es s'" and "es \<noteq> []"
  shows "\<exists>e s1. step s e s1"
  using assms
proof (induction rule: run.induct)
  case (run_nil s)
  then show ?case by simp
next
  case (run_snoc s es s' e s'')
  show ?case
  proof (cases "es = []")
    case True
    with run_snoc.hyps(1) have "s' = s" by (auto elim: run.cases)
    with run_snoc.hyps(2) show ?thesis by blast
  next
    case False
    from run_snoc.IH [OF this] show ?thesis .
  qed
qed












section \<open>The claims\<close>

text \<open>
  C5. For every finite seed sequence, the generator followed by one \<open>multiply\<close> stage
  hands \<open>main\<close> the transformed inputs, in the order of the inputs and as many as the
  inputs: every run of the pipeline is finite (at most \<open>4 * length xs + 6\<close> steps), at
  every moment what has been printed is the transformed values of a prefix of the seed
  sequence, and when nothing can move any more every goroutine has returned and the whole
  transformed sequence has been printed.
\<close>

theorem generator_multiply_in_order:
  assumes "run (multiply_pipeline xs m) es s"
  shows "length es \<le> 4 * length xs + 6 \<and>
         stdout s = map (product m) (take (length (stdout s)) xs) \<and>
         (succs s = [] \<longrightarrow>
            procs s = [Exited, Exited, MainExited (map (product m) xs)] \<and>
            stdout s = map (product m) xs)"
proof -
  from run_inv1 [OF assms] have i: "inv1 xs m s" and l: "length es + fuel1 s \<le> 4 * length xs + 6"
    by simp_all
  from l have 1: "length es \<le> 4 * length xs + 6" by simp
  from inv1_stdout [OF i] have 2: "stdout s = map (product m) (take (length (stdout s)) xs)"
    by (simp add: take_map)
  have 3: "succs s = [] \<longrightarrow>
           procs s = [Exited, Exited, MainExited (map (product m) xs)] \<and>
           stdout s = map (product m) xs"
  proof
    assume "succs s = []"
    from inv1_stuck [OF i this]
    show "procs s = [Exited, Exited, MainExited (map (product m) xs)] \<and>
           stdout s = map (product m) xs"
      by (simp add: st_def stdout_def)
  qed
  from 1 2 3 show ?thesis by blast
qed

text \<open>
  The scenario of the specification: the generator emits 1, 2, 3, 4 and the stage doubles;
  the pipeline has a run to its end, and it ends with 2, 4, 6, 8 printed in that order.
\<close>

theorem generator_multiply_in_order_witness:
  "\<exists>es s. run (multiply_pipeline [1, 2, 3, 4] 2) es s \<and> succs s = [] \<and>
           length es \<le> 22 \<and> stdout s = [VInt 2, VInt 4, VInt 6, VInt 8]"
proof -
  obtain es s where r: "run (multiply_pipeline [1, 2, 3, 4] 2) es s" and e: "succs s = []"
    using multiply_pipeline_complete_run by blast
  from generator_multiply_in_order [OF r] e
  have "length es \<le> 22 \<and> stdout s = [VInt 2, VInt 4, VInt 6, VInt 8]"
    by (simp add: product_def wrap64_def)
  with r e show ?thesis by blast
qed



text \<open>
  C10, as the code has it. For every input \<open>n\<close> above the two smallest integers,
  \<open>primeFinder\<close> tests and emits \<open>n - 1\<close>, not \<open>n\<close>: it emits \<open>n - 1\<close> exactly when no
  \<open>d\<close> with \<open>1 < d < n - 1\<close> divides \<open>n - 1\<close>, hence whenever none strictly between 1
  and \<open>n - 2\<close> does; so it emits \<open>n - 1\<close> for every such \<open>n \<le> 3\<close>, among them the
  non-primes 1 (for the input 2) and 0 (for the input 1).
\<close>

theorem primeFinder_emits_predecessor:
  assumes "minInt + 2 \<le> n" and "n \<le> maxInt"
  shows "primeFinder_item n =
           (if \<forall>d. 1 < d \<and> d < n - 1 \<longrightarrow> \<not> d dvd (n - 1) then Some (n - 1) else None) \<and>
         ((\<forall>d. 1 < d \<and> d < n - 2 \<longrightarrow> \<not> d dvd (n - 1)) \<longrightarrow> primeFinder_item n = Some (n - 1)) \<and>
         (n \<le> 3 \<longrightarrow> primeFinder_item n = Some (n - 1)) \<and>
         primeFinder_item 2 = Some 1 \<and> primeFinder_item 1 = Some 0"
proof -
  have eq: "(\<forall>d. 1 < d \<and> d \<le> n - 2 \<longrightarrow> \<not> d dvd (n - 1)) \<longleftrightarrow>
            (\<forall>d. 1 < d \<and> d < n - 1 \<longrightarrow> \<not> d dvd (n - 1))"
    by (simp add: zle_diff1_eq [symmetric] algebra_simps)
  have 1: "primeFinder_item n =
           (if \<forall>d. 1 < d \<and> d < n - 1 \<longrightarrow> \<not> d dvd (n - 1) then Some (n - 1) else None)"
    using primeFinder_item_char [OF assms] unfolding eq .
  have 2: "(\<forall>d. 1 < d \<and> d < n - 2 \<longrightarrow> \<not> d dvd (n - 1)) \<longrightarrow> primeFinder_item n = Some (n - 1)"
  proof
    assume h: "\<forall>d. 1 < d \<and> d < n - 2 \<longrightarrow> \<not> d dvd (n - 1)"
    have "\<forall>d. 1 < d \<and> d < n - 1 \<longrightarrow> \<not> d dvd (n - 1)"
    proof (intro allI impI)
      fix d assume d: "1 < d \<and> d < n - 1"
      show "\<not> d dvd (n - 1)"
      proof (cases "d = n - 2")
        case True
        with d pred_not_dvd [of "n - 2"] show ?thesis by simp
      next
        case False
        with d have "1 < d \<and> d < n - 2" by simp
        with h show ?thesis by blast
      qed
    qed
    with 1 show "primeFinder_item n = Some (n - 1)" by simp
  qed
  have 3: "n \<le> 3 \<longrightarrow> primeFinder_item n = Some (n - 1)"
    using 1 by auto
  have 4: "primeFinder_item 2 = Some 1" "primeFinder_item 1 = Some 0"
    by (simp_all add: primeFinder_eval)
  from 1 2 3 4 show ?thesis by blast
qed

theorem primeFinder_emits_predecessor_witness:
  "minInt + 2 \<le> 3 \<and> 3 \<le> maxInt \<and> primeFinder_item 3 = Some 2 \<and>
   primeFinder_item 10 = None \<and> primeFinder_item (- 4) = Some (- 5)"
proof -
  have a: "minInt + 2 \<le> 3" "3 \<le> maxInt" "minInt + 2 \<le> 10" "10 \<le> maxInt"
    "minInt + 2 \<le> - 4" "- 4 \<le> maxInt"
    by (simp_all add: minInt_def maxInt_def)
  have H: "\<not> (\<forall>d::int. 1 < d \<and> d < 10 - 1 \<longrightarrow> \<not> d dvd (10 - 1))"
  proof
    assume "\<forall>d::int. 1 < d \<and> d < 10 - 1 \<longrightarrow> \<not> d dvd (10 - 1)"
    then have "(1::int) < 3 \<and> (3::int) < 10 - 1 \<longrightarrow> \<not> (3::int) dvd (10 - 1)" by (rule spec)
    then show False by simp
  qed
  from primeFinder_emits_predecessor [OF a(1,2)] have 1: "primeFinder_item 3 = Some 2"
    by simp
  from primeFinder_emits_predecessor [OF a(5,6)] have 2: "primeFinder_item (- 4) = Some (- 5)"
    by simp
  from primeFinder_emits_predecessor [OF a(3,4)]
  have "primeFinder_item 10 =
     (if \<forall>d::int. 1 < d \<and> d < 10 - 1 \<longrightarrow> \<not> d dvd (10 - 1) then Some (10 - 1) else None)"
    by (rule conjunct1)
  then have 3: "primeFinder_item 10 = None"
    by (simp only: H if_False)
  from a 1 2 3 show ?thesis by simp
qed

text \<open>
  The claim as it was stated fails at the second smallest integer: there \<open>integer - 1\<close>
  wraps around to the largest integer, the loop runs, finds the divisor \<open>2 ^ 62\<close>, and
  nothing is emitted although the input is below 3.
\<close>

theorem primeFinder_wraps_counterexample:
  "primeFinder_item (- 9223372036854775807) = None \<and>
   is_int64 (- 9223372036854775807) \<and> (- 9223372036854775807 :: int) \<le> 3"
  using primeFinder_item_min by (simp add: minInt_def maxInt_def is_int64_def)

text \<open>
  C2, as the code has it. \<open>take(done, valueStream, num)\<close> over a stream that a generator
  feeds with \<open>xs\<close> and closes, ranged over by \<open>main\<close>: every run is finite, what has been
  printed at any moment are the first values of \<open>xs\<close>, followed by \<open>nil\<close> values once
  \<open>xs\<close> is used up, and never more than \<open>num\<close> values; when nothing can move any more,
  exactly \<open>num\<close> values have been printed and \<open>takeStream\<close> is closed. So a stream that
  holds at least \<open>num\<close> values gives its first \<open>num\<close> values, and a stream that holds
  fewer is padded with \<open>nil\<close> values it never held, up to \<open>num\<close>.
\<close>

theorem take_pads_short_stream:
  assumes "run (take_pipeline xs num) es s"
  shows "length es \<le> 3 * nat num + 5 \<and>
         stdout s = map VInt (take (length (stdout s)) xs) @
                    replicate (length (stdout s) - length xs) VNil \<and>
         length (stdout s) \<le> nat num \<and>
         (succs s = [] \<longrightarrow>
            stdout s = map VInt (take (nat num) xs) @ replicate (nat num - length xs) VNil \<and>
            procs s = [Exited, Exited, MainExited (stdout s)] \<and>
            ''takeStream'' \<in> closed s)"
proof -
  note r = source_pipeline_run [OF assms [unfolded take_pipeline_source]]
  from r have 1: "length es \<le> 3 * nat num + 5" and 3: "length (stdout s) \<le> nat num"
    by simp_all
  from r have "stdout s = taken (Finite xs) (length (stdout s))" by simp
  then have 2: "stdout s = map VInt (take (length (stdout s)) xs) @
                    replicate (length (stdout s) - length xs) VNil"
    by (simp only: taken_Finite)
  have 4: "stdout s = map VInt (take (nat num) xs) @ replicate (nat num - length xs) VNil \<and>
            procs s = [Exited, Exited, MainExited (stdout s)] \<and>
            ''takeStream'' \<in> closed s" if "succs s = []"
  proof -
    from r that have p: "procs s = [Exited, Exited, MainExited (taken (Finite xs) (nat num))]"
      and t: "''takeStream'' \<in> closed s" by simp_all
    from p have "stdout s = taken (Finite xs) (nat num)" by (simp add: stdout_def)
    with p t show ?thesis by (simp add: taken_Finite)
  qed
  from 1 2 3 4 show ?thesis by blast
qed

text \<open>
  The stream that holds the single value 5, with \<open>num = 2\<close>: there is a run to the end,
  and it ends with the 5 and a \<open>nil\<close> printed.
\<close>

theorem take_pads_short_stream_witness:
  "\<exists>es s. run (take_pipeline [5] 2) es s \<and> succs s = [] \<and> stdout s = [VInt 5, VNil] \<and>
     ''takeStream'' \<in> closed s"
proof -
  obtain es s where r: "run (take_pipeline [5] 2) es s" and e: "succs s = []"
    using source_pipeline_complete_run [of "Finite [5]" 2] by (auto simp: take_pipeline_source)
  from take_pads_short_stream [OF r] e have "stdout s = [VInt 5, VNil]"
    "''takeStream'' \<in> closed s"
    by (simp_all add: numeral_2_eq_2)
  with r e show ?thesis by blast
qed

text \<open>
  C7, at the input where the code departs from it. A channel does what the claim says: a
  closed channel stays closed, and no value is handed over on a closed channel. But with
  \<open>valueStream\<close> closed and drained, \<open>take\<close> still receives from it, gets \<open>nil\<close>, and
  forwards that value to its reader.
\<close>

theorem take_forwards_from_closed_stream:
  "(step s e s' \<longrightarrow> closed s \<subseteq> closed s') \<and>
   (step s (Comm j i c v) s' \<longrightarrow> c \<notin> closed s) \<and>
   step (st [Exited, TakeLoop ''done'' ''valueStream'' ''takeStream'' 2 1,
             MainRange ''takeStream'' ''done'' [VInt 5]] {''valueStream''})
        (RecvClosed 1 ''valueStream'')
        (st [Exited, TakeSelect ''done'' ''valueStream'' ''takeStream'' 2 1 VNil,
             MainRange ''takeStream'' ''done'' [VInt 5]] {''valueStream''}) \<and>
   step (st [Exited, TakeSelect ''done'' ''valueStream'' ''takeStream'' 2 1 VNil,
             MainRange ''takeStream'' ''done'' [VInt 5]] {''valueStream''})
        (Comm 1 2 ''takeStream'' VNil)
        (st [Exited, TakeLoop ''done'' ''valueStream'' ''takeStream'' 2 2,
             MainRange ''takeStream'' ''done'' [VInt 5, VNil]] {''valueStream''})"
proof -
  have 1: "closed s \<subseteq> closed s'" if "step s e s'"
    using that by (rule step_closed_mono)
  have 2: "c \<notin> closed s" if "step s (Comm j i c v) s'"
    using that by (cases rule: stepE) simp_all
  have 3: "step (st [Exited, TakeLoop ''done'' ''valueStream'' ''takeStream'' 2 1,
             MainRange ''takeStream'' ''done'' [VInt 5]] {''valueStream''})
        (RecvClosed 1 ''valueStream'')
        (st [Exited, TakeSelect ''done'' ''valueStream'' ''takeStream'' 2 1 VNil,
             MainRange ''takeStream'' ''done'' [VInt 5]] {''valueStream''})"
    by (simp add: sym_exec)
  have 4: "step (st [Exited, TakeSelect ''done'' ''valueStream'' ''takeStream'' 2 1 VNil,
             MainRange ''takeStream'' ''done'' [VInt 5]] {''valueStream''})
        (Comm 1 2 ''takeStream'' VNil)
        (st [Exited, TakeLoop ''done'' ''valueStream'' ''takeStream'' 2 2,
             MainRange ''takeStream'' ''done'' [VInt 5, VNil]] {''valueStream''})"
    by (simp add: sym_exec)
  from 1 2 3 4 show ?thesis by blast
qed

text \<open>
  The hand-over of the \<open>nil\<close> to \<open>main\<close> is on \<open>takeStream\<close>, which is open; the stream
  the \<open>nil\<close> is taken from is closed before and after.
\<close>

theorem take_forwards_from_closed_stream_witness:
  "step (st [Exited, TakeSelect ''done'' ''valueStream'' ''takeStream'' 2 1 VNil,
             MainRange ''takeStream'' ''done'' [VInt 5]] {''valueStream''})
        (Comm 1 2 ''takeStream'' VNil)
        (st [Exited, TakeLoop ''done'' ''valueStream'' ''takeStream'' 2 2,
             MainRange ''takeStream'' ''done'' [VInt 5, VNil]] {''valueStream''}) \<and>
   ''takeStream'' \<notin> closed (st [Exited, TakeSelect ''done'' ''valueStream'' ''takeStream'' 2 1 VNil,
             MainRange ''takeStream'' ''done'' [VInt 5]] {''valueStream''}) \<and>
   ''valueStream'' \<in> closed (st [Exited, TakeLoop ''done'' ''valueStream'' ''takeStream'' 2 2,
             MainRange ''takeStream'' ''done'' [VInt 5, VNil]] {''valueStream''})"
proof -
  let ?s = "st [Exited, TakeSelect ''done'' ''valueStream'' ''takeStream'' 2 1 VNil,
             MainRange ''takeStream'' ''done'' [VInt 5]] {''valueStream''}"
  let ?s' = "st [Exited, TakeLoop ''done'' ''valueStream'' ''takeStream'' 2 2,
             MainRange ''takeStream'' ''done'' [VInt 5, VNil]] {''valueStream''}"
  note t = take_forwards_from_closed_stream
    [where s = ?s and s' = ?s' and e = "Comm 1 2 ''takeStream'' VNil" and j = 1 and i = 2
       and c = "''takeStream''" and v = VNil]
  from t have st: "step ?s (Comm 1 2 ''takeStream'' VNil) ?s'" by blast
  with t have "''takeStream'' \<notin> closed ?s" "closed ?s \<subseteq> closed ?s'" by blast+
  moreover have "''valueStream'' \<in> closed ?s" by (simp add: st_def)
  ultimately show ?thesis using st by blast
qed




text \<open>
  C6, as the code has it. Activating the signal is closing \<open>done\<close>, and it is a one-way
  step: a closed channel stays closed along every run, and from then on every holder's
  receive from \<open>done\<close> succeeds at once. Closing \<open>done\<close> while it is open activates it;
  closing it a second time is not a no-op: the program panics, and takes no step after.
\<close>

theorem done_closes_once:
  "(run s es s' \<and> d \<in> closed s \<longrightarrow> d \<in> closed s') \<and>
   (\<not> panicked s \<and> i < length (procs s) \<and> Recv d k \<in> set (offers (procs s ! i)) \<and>
    d \<in> closed s \<longrightarrow>
      step s (RecvClosed i d) (s\<lparr>procs := (procs s)[i := k None]\<rparr>)) \<and>
   (\<not> panicked s \<and> i < length (procs s) \<and> Close d g' \<in> set (offers (procs s ! i)) \<and>
    d \<notin> closed s \<longrightarrow>
      step s (Closes i d) (s\<lparr>procs := (procs s)[i := g'], closed := insert d (closed s)\<rparr>)) \<and>
   (\<not> panicked s \<and> i < length (procs s) \<and> Close d g' \<in> set (offers (procs s ! i)) \<and>
    d \<in> closed s \<longrightarrow>
      step s (Panics i) (s\<lparr>panicked := True\<rparr>) \<and> succs (s\<lparr>panicked := True\<rparr>) = [])"
proof -
  have 1: "run s es s' \<and> d \<in> closed s \<longrightarrow> d \<in> closed s'"
    using run_closed_mono by blast
  have 4: "succs (s\<lparr>panicked := True\<rparr>) = []"
    by (simp add: succs_def)
  from 1 4 step_recv_closedI step_closesI step_close_panicI show ?thesis by blast
qed

theorem done_closes_once_witness:
  "step (st [MainReturn ''done'' []] {}) (Closes 0 ''done'')
        (st [MainExited []] {''done''}) \<and>
   step (st [Closing ''done''] {''done''}) (Panics 0)
        ((st [Closing ''done''] {''done''})\<lparr>panicked := True\<rparr>)"
proof -
  have "step (st [MainReturn ''done'' []] {}) (Closes 0 ''done'')
    ((st [MainReturn ''done'' []] {})\<lparr>procs := (procs (st [MainReturn ''done'' []] {}))[0 := MainExited []],
         closed := insert ''done'' (closed (st [MainReturn ''done'' []] {}))\<rparr>)"
    using done_closes_once [where s = "st [MainReturn ''done'' []] {}" and i = 0
        and d = "''done''" and g' = "MainExited []"]
    by (simp add: st_def)
  moreover have "step (st [Closing ''done''] {''done''}) (Panics 0)
        ((st [Closing ''done''] {''done''})\<lparr>panicked := True\<rparr>)"
    using done_closes_once [where s = "st [Closing ''done''] {''done''}" and i = 0
        and d = "''done''" and g' = "Exited"]
    by (simp add: st_def)
  ultimately show ?thesis by (simp add: st_def)
qed

text \<open>
  The claim as it was stated fails when a second holder closes \<open>done\<close> after the first:
  the only step is the panic.
\<close>

theorem second_close_counterexample:
  "succs (st [Exited, Closing ''done''] {''done''}) =
     [(Panics 1, \<lparr>procs = [Exited, Closing ''done''], closed = {''done''}, wg = 0,
                  panicked = True\<rparr>)]"
  by (simp add: succs_def st_def upt_rec)

text \<open>
  C4, as the code has it. Take any program that holds the goroutines of
  \<open>fanIn(done, cs...)\<close>, freshly started, beside any other goroutines that are not \<open>fanIn\<close>'s
  own (the producers of the input streams, the readers). Along every run,
  \<open>multiplexedStream\<close> is closed by exactly one step if it is closed at all, that step is
  the closer's, and no goroutine of \<open>fanIn\<close> panics; when the stream is closed every
  forwarding goroutine has returned, each after seeing its input stream closed or the
  cancellation signal; so while the signal is not active the stream is closed only when
  every input stream is closed. When every forwarding goroutine has returned and the
  stream is still open, the closer closes it within two steps, and the program cannot be
  at rest before.
\<close>

theorem fanIn_closes_after_all_forwarders:
  assumes "run s0 es s"
    and "procs s0 = fanIn d cs out @ env" and "\<forall>g \<in> set env. stranger d out g"
    and "wg s0 = int (length cs)" and "out \<notin> closed s0" and "d \<noteq> out"
  shows "length (filter (is_close out) es) = (if out \<in> closed s then 1 else 0) \<and>
         (\<forall>i. Closes i out \<in> set es \<longrightarrow> i = length cs) \<and>
         (\<forall>i. Panics i \<in> set es \<longrightarrow> \<not> i < length (fanIn d cs out)) \<and>
         (out \<in> closed s \<longrightarrow>
            (\<forall>k < length cs. procs s ! k = Exited \<and> (cs ! k \<in> closed s \<or> d \<in> closed s))) \<and>
         (out \<in> closed s \<and> d \<notin> closed s \<longrightarrow> (\<forall>k < length cs. cs ! k \<in> closed s)) \<and>
         ((\<forall>k < length cs. procs s ! k = Exited) \<and> \<not> panicked s \<and> out \<notin> closed s \<longrightarrow>
            succs s \<noteq> [] \<and> (\<exists>es' s'. run s es' s' \<and> length es' \<le> 2 \<and> out \<in> closed s'))"
proof -
  note init = fanin_inv_init [OF assms(2-5)]
  from fanin_inv_run [OF assms(1) init assms(6)] have inv: "fanin_inv d cs out s" .
  have 1: "length (filter (is_close out) es) = (if out \<in> closed s then 1 else 0)"
    using closes_once [OF assms(1,5)] .
  have 2: "\<forall>i. Closes i out \<in> set es \<longrightarrow> i = length cs"
    using fanin_run_events [OF assms(1) init assms(6)] by blast
  have 3: "\<forall>i. Panics i \<in> set es \<longrightarrow> \<not> i < length (fanIn d cs out)"
  proof (intro allI impI)
    fix i
    assume "Panics i \<in> set es"
    with fanin_run_events [OF assms(1) init assms(6), of i] have "length cs < i" by blast
    then show "\<not> i < length (fanIn d cs out)" by (simp add: fanIn_def)
  qed
  have 4: "out \<in> closed s \<longrightarrow>
      (\<forall>k < length cs. procs s ! k = Exited \<and> (cs ! k \<in> closed s \<or> d \<in> closed s))"
    using fanin_closed_all_done [OF inv] by blast
  from 4 have 5: "out \<in> closed s \<and> d \<notin> closed s \<longrightarrow> (\<forall>k < length cs. cs ! k \<in> closed s)"
    by blast
  have 6: "succs s \<noteq> [] \<and> (\<exists>es' s'. run s es' s' \<and> length es' \<le> 2 \<and> out \<in> closed s')"
    if a: "\<forall>k < length cs. procs s ! k = Exited" "\<not> panicked s" "out \<notin> closed s"
  proof -
    from fanin_all_done_closes [OF inv a] obtain es' s'
      where r: "run s es' s'" "length es' \<le> 2" "out \<in> closed s'" by blast
    from r(1,3) a(3) have "es' \<noteq> []" by (auto elim: run.cases)
    from run_first_step [OF r(1) this] have "succs s \<noteq> []" by (auto simp: step_def)
    with r show ?thesis by blast
  qed
  from 1 2 3 4 5 6 show ?thesis by blast
qed

text \<open>
  Two input streams that hold one value each, and \<open>main\<close> ranging over the merged stream:
  a run in which both values are forwarded, both inputs are closed, both forwarding
  goroutines return, and then the closer closes the merged stream, once.
\<close>

theorem fanIn_closes_after_all_forwarders_witness:
  "run (fanin_demo (fanIn ''done'' [''c1'', ''c2''] ''multiplexedStream'' @
       [Generator ''done'' ''c1'' [1], Generator ''done'' ''c2'' [2],
        MainRange ''multiplexedStream'' ''done'' []]) {} 2)
     [Comm 3 0 ''c1'' (VInt 1),
      Comm 0 5 ''multiplexedStream'' (VInt 1),
      Closes 3 ''c1'',
      RecvClosed 0 ''c1'',
      WgDoneEv 0,
      Comm 4 1 ''c2'' (VInt 2),
      Comm 1 5 ''multiplexedStream'' (VInt 2),
      Closes 4 ''c2'',
      RecvClosed 1 ''c2'',
      WgDoneEv 1,
      WgWaitEv 2,
      Closes 2 ''multiplexedStream'']
     (fanin_demo [Exited, Exited, Exited, Exited, Exited, MainRange ''multiplexedStream'' ''done'' [VInt 1, VInt 2]] {''multiplexedStream'', ''c2'', ''c1''} 0) \<and>
   length (filter (is_close ''multiplexedStream'')
     [Comm 3 0 ''c1'' (VInt 1),
      Comm 0 5 ''multiplexedStream'' (VInt 1),
      Closes 3 ''c1'',
      RecvClosed 0 ''c1'',
      WgDoneEv 0,
      Comm 4 1 ''c2'' (VInt 2),
      Comm 1 5 ''multiplexedStream'' (VInt 2),
      Closes 4 ''c2'',
      RecvClosed 1 ''c2'',
      WgDoneEv 1,
      WgWaitEv 2,
      Closes 2 ''multiplexedStream'']) = 1 \<and>
   ''multiplexedStream'' \<in> closed (fanin_demo [Exited, Exited, Exited, Exited, Exited, MainRange ''multiplexedStream'' ''done'' [VInt 1, VInt 2]] {''multiplexedStream'', ''c2'', ''c1''} 0) \<and>
   ''done'' \<notin> closed (fanin_demo [Exited, Exited, Exited, Exited, Exited, MainRange ''multiplexedStream'' ''done'' [VInt 1, VInt 2]] {''multiplexedStream'', ''c2'', ''c1''} 0) \<and>
   procs (fanin_demo [Exited, Exited, Exited, Exited, Exited, MainRange ''multiplexedStream'' ''done'' [VInt 1, VInt 2]] {''multiplexedStream'', ''c2'', ''c1''} 0) ! 0 = Exited \<and>
   procs (fanin_demo [Exited, Exited, Exited, Exited, Exited, MainRange ''multiplexedStream'' ''done'' [VInt 1, VInt 2]] {''multiplexedStream'', ''c2'', ''c1''} 0) ! 1 = Exited \<and>
   ''c1'' \<in> closed (fanin_demo [Exited, Exited, Exited, Exited, Exited, MainRange ''multiplexedStream'' ''done'' [VInt 1, VInt 2]] {''multiplexedStream'', ''c2'', ''c1''} 0) \<and>
   ''c2'' \<in> closed (fanin_demo [Exited, Exited, Exited, Exited, Exited, MainRange ''multiplexedStream'' ''done'' [VInt 1, VInt 2]] {''multiplexedStream'', ''c2'', ''c1''} 0)"
proof -
  let ?a = "fanin_demo (fanIn ''done'' [''c1'', ''c2''] ''multiplexedStream'' @
       [Generator ''done'' ''c1'' [1], Generator ''done'' ''c2'' [2],
        MainRange ''multiplexedStream'' ''done'' []]) {} 2"
  let ?es = "[Comm 3 0 ''c1'' (VInt 1),
      Comm 0 5 ''multiplexedStream'' (VInt 1),
      Closes 3 ''c1'',
      RecvClosed 0 ''c1'',
      WgDoneEv 0,
      Comm 4 1 ''c2'' (VInt 2),
      Comm 1 5 ''multiplexedStream'' (VInt 2),
      Closes 4 ''c2'',
      RecvClosed 1 ''c2'',
      WgDoneEv 1,
      WgWaitEv 2,
      Closes 2 ''multiplexedStream'']"
  let ?s = "fanin_demo [Exited, Exited, Exited, Exited, Exited, MainRange ''multiplexedStream'' ''done'' [VInt 1, VInt 2]] {''multiplexedStream'', ''c2'', ''c1''} 0"
  have r: "run ?a ?es ?s" using fanin_two_run by (simp add: fanIn_def)
  have h: "procs ?a = fanIn ''done'' [''c1'', ''c2''] ''multiplexedStream'' @
      [Generator ''done'' ''c1'' [1], Generator ''done'' ''c2'' [2],
       MainRange ''multiplexedStream'' ''done'' []]"
    "\<forall>g \<in> set [Generator ''done'' ''c1'' [1], Generator ''done'' ''c2'' [2],
       MainRange ''multiplexedStream'' ''done'' []]. stranger ''done'' ''multiplexedStream'' g"
    "wg ?a = int (length [''c1'', ''c2''])" "''multiplexedStream'' \<notin> closed ?a"
    "''done'' \<noteq> ''multiplexedStream''"
    by (simp_all add: fanin_demo_def)
  note t = fanIn_closes_after_all_forwarders [OF r h]
  have c: "''multiplexedStream'' \<in> closed ?s" "''done'' \<notin> closed ?s"
    by (simp_all add: fanin_demo_def)
  from t c have 1: "length (filter (is_close ''multiplexedStream'') ?es) = 1" by simp
  from t c have "\<forall>k < length [''c1'', ''c2''].
      procs ?s ! k = Exited \<and> [''c1'', ''c2''] ! k \<in> closed ?s"
    by blast
  from this [rule_format, of 0] this [rule_format, of 1]
  have 2: "procs ?s ! 0 = Exited" "procs ?s ! 1 = Exited" "''c1'' \<in> closed ?s" "''c2'' \<in> closed ?s"
    by simp_all
  from r c 1 2 show ?thesis by blast
qed

text \<open>
  The claim as it was stated fails once the signal is active. \<open>main\<close> ranges over
  \<open>take(done, fanIn(done, c), 1)\<close>, where \<open>c\<close> is fed by a generator of 1, 2, 3: after the
  first value \<open>main\<close> returns and closes \<open>done\<close>; the forwarding goroutine, which has taken
  the 2, returns without forwarding it, and the closer closes the merged stream while \<open>c\<close>
  is open and its generator is ready to send the 3.
\<close>

theorem fanIn_closes_early_counterexample:
  "run (fanin_demo (fanIn ''done'' [''c''] ''multiplexedStream'' @
       [Generator ''done'' ''c'' [1, 2, 3],
        TakeLoop ''done'' ''multiplexedStream'' ''takeStream'' 1 0,
        MainRange ''takeStream'' ''done'' []]) {} 1)
     [Comm 2 0 ''c'' (VInt 1),
      Comm 0 3 ''multiplexedStream'' (VInt 1),
      Comm 3 4 ''takeStream'' (VInt 1),
      Closes 3 ''takeStream'',
      RecvClosed 4 ''takeStream'',
      Closes 4 ''done'',
      Comm 2 0 ''c'' (VInt 2),
      RecvClosed 0 ''done'',
      WgDoneEv 0,
      WgWaitEv 1,
      Closes 1 ''multiplexedStream'']
     (fanin_demo [Exited, Exited, Generator ''done'' ''c'' [3], Exited, MainExited [VInt 1]] {''multiplexedStream'', ''done'', ''takeStream''} 0) \<and>
   ''multiplexedStream'' \<in> closed (fanin_demo [Exited, Exited, Generator ''done'' ''c'' [3], Exited, MainExited [VInt 1]] {''multiplexedStream'', ''done'', ''takeStream''} 0) \<and>
   ''c'' \<notin> closed (fanin_demo [Exited, Exited, Generator ''done'' ''c'' [3], Exited, MainExited [VInt 1]] {''multiplexedStream'', ''done'', ''takeStream''} 0) \<and>
   offers (procs (fanin_demo [Exited, Exited, Generator ''done'' ''c'' [3], Exited, MainExited [VInt 1]] {''multiplexedStream'', ''done'', ''takeStream''} 0) ! 2) =
     [Recv ''done'' (\<lambda>_. Closing ''c''), Send ''c'' (VInt 3) (Generator ''done'' ''c'' [])]"
proof -
  have "run (fanin_demo (fanIn ''done'' [''c''] ''multiplexedStream'' @
       [Generator ''done'' ''c'' [1, 2, 3],
        TakeLoop ''done'' ''multiplexedStream'' ''takeStream'' 1 0,
        MainRange ''takeStream'' ''done'' []]) {} 1)
     [Comm 2 0 ''c'' (VInt 1),
      Comm 0 3 ''multiplexedStream'' (VInt 1),
      Comm 3 4 ''takeStream'' (VInt 1),
      Closes 3 ''takeStream'',
      RecvClosed 4 ''takeStream'',
      Closes 4 ''done'',
      Comm 2 0 ''c'' (VInt 2),
      RecvClosed 0 ''done'',
      WgDoneEv 0,
      WgWaitEv 1,
      Closes 1 ''multiplexedStream'']
     (fanin_demo [Exited, Exited, Generator ''done'' ''c'' [3], Exited, MainExited [VInt 1]] {''multiplexedStream'', ''done'', ''takeStream''} 0)"
    using fanin_cancelled_run by (simp add: fanIn_def)
  then show ?thesis by (simp add: fanin_demo_def)
qed

text \<open>
  C8. Take a generator of the values \<open>xs\<close> on one shared stream, a pool of prime finders
  that all read that stream, and any other goroutines that do not send on it. Along every
  run the values handed over on the shared stream are, in order, the first values of
  \<open>xs\<close>: each seed value is handed over at most once, and a hand-over is one step between
  the generator and one receiver that leaves every other goroutine as it was, so no value
  reaches two workers. Which worker receives is not determined: at the start the first
  value can go to any worker of the pool.
\<close>

theorem fanout_delivers_each_value_once:
  assumes "procs s0 = Generator d c xs # fanout d c finders @ env"
    and "c \<notin> set finders" and "\<forall>g \<in> set env. sends_on g \<noteq> Some c"
    and "\<not> panicked s0" and "c \<notin> closed s0"
  shows "(run s0 es s \<longrightarrow>
            map snd (deliveries c es) = map VInt (take (length (deliveries c es)) xs)) \<and>
         (step t (Comm j i c v) t' \<longrightarrow> (\<forall>k. k \<noteq> i \<and> k \<noteq> j \<longrightarrow> procs t' ! k = procs t ! k)) \<and>
         (\<forall>x rest w. xs = x # rest \<and> 1 \<le> w \<and> w \<le> length finders \<longrightarrow>
            (\<exists>s'. step s0 (Comm 0 w c (VInt x)) s'))"
proof -
  have 1: "run s0 es s \<longrightarrow>
            map snd (deliveries c es) = map VInt (take (length (deliveries c es)) xs)"
    using fanout_inv_run [OF _ fanout_inv_init [OF assms(1-3)]] by blast
  have 2: "step t (Comm j i c v) t' \<longrightarrow> (\<forall>k. k \<noteq> i \<and> k \<noteq> j \<longrightarrow> procs t' ! k = procs t ! k)"
    using comm_frame by blast
  have 3: "\<forall>x rest w. xs = x # rest \<and> 1 \<le> w \<and> w \<le> length finders \<longrightarrow>
            (\<exists>s'. step s0 (Comm 0 w c (VInt x)) s')"
    using fanout_any_worker [OF _ assms(4,5)] assms(1) by blast
  from 1 2 3 show ?thesis by blast
qed

theorem fanout_delivers_each_value_once_witness:
  "run fanout_demo [Comm 0 2 ''intStream'' (VInt 2)]
     (st [Generator ''done'' ''intStream'' [3],
          PrimeFinderRange ''done'' ''intStream'' ''primeStream1'',
          PrimeFinderSelect ''done'' ''intStream'' ''primeStream2'' 1] {}) \<and>
   deliveries ''intStream'' [Comm 0 2 ''intStream'' (VInt 2)] = [(2, VInt 2)] \<and>
   (\<exists>s'. step fanout_demo (Comm 0 1 ''intStream'' (VInt 2)) s')"
proof -
  have r: "run fanout_demo ([] @ [Comm 0 2 ''intStream'' (VInt 2)])
     (st [Generator ''done'' ''intStream'' [3],
          PrimeFinderRange ''done'' ''intStream'' ''primeStream1'',
          PrimeFinderSelect ''done'' ''intStream'' ''primeStream2'' 1] {})"
    using run_nil fanout_demo_step by (rule run_snoc)
  have p: "procs fanout_demo = Generator ''done'' ''intStream'' [2, 3] #
      fanout ''done'' ''intStream'' [''primeStream1'', ''primeStream2''] @ []"
    by (simp add: fanout_demo_def st_def)
  have "\<exists>s'. step fanout_demo (Comm 0 1 ''intStream'' (VInt 2)) s'"
    using fanout_delivers_each_value_once [OF p]
    by (simp add: fanout_demo_def st_def fanout_def)
  with r show ?thesis by (simp add: deliveries_def)
qed





end
